theory Spec2Isabelle
  imports Complex_Main
begin

section \<open>Numbers\<close>

text \<open>
  A JavaScript \<open>number\<close> is modelled as a real. Where the source divides by a configured
  value that may be zero, the model keeps the three non-finite results of the division
  apart, because the comparisons that follow the division behave differently on them.
\<close>

datatype jsnum = Num real | PosInf | NegInf | NaN

definition js_div :: "real \<Rightarrow> real \<Rightarrow> jsnum" where
  "js_div a b =
     (if b \<noteq> 0 then Num (a / b)
      else if 0 < a then PosInf
      else if a < 0 then NegInf
      else NaN)"

text \<open>\<open>Math.min(1, v)\<close>\<close>

fun js_min1 :: "jsnum \<Rightarrow> jsnum" where
  "js_min1 (Num r) = Num (min 1 r)"
| "js_min1 PosInf = Num 1"
| "js_min1 NegInf = NegInf"
| "js_min1 NaN = NaN"

text \<open>\<open>v >= 1\<close>\<close>

fun js_ge1 :: "jsnum \<Rightarrow> bool" where
  "js_ge1 (Num r) = (1 \<le> r)"
| "js_ge1 PosInf = True"
| "js_ge1 NegInf = False"
| "js_ge1 NaN = False"

text \<open>\<open>a < v\<close> for a finite \<open>a\<close>\<close>

fun js_lt :: "real \<Rightarrow> jsnum \<Rightarrow> bool" where
  "js_lt a (Num r) = (a < r)"
| "js_lt a PosInf = True"
| "js_lt a NegInf = False"
| "js_lt a NaN = False"

section \<open>CaseEngine.ts\<close>

subsection \<open>Data\<close>

datatype CaseState = at_inbox | transitioning | at_procedure | at_procedure_stage | at_outbox

text \<open>
  \<open>holdDuration\<close> is the property \<open>spawnCase\<close> adds to the object behind the interface's
  back; \<open>updateCase\<close> reads it with a default, so it is optional.
\<close>

record Case =
  caseId :: string
  state :: CaseState
  currentNodeId :: string
  currentStageIndex :: int
  progress :: jsnum
  spawnedAt :: real
  stateStartedAt :: real
  holdDuration :: "real option"

record CaseEngineConfig =
  transitionDuration :: real
  stageDuration :: real

datatype StageType = ai | manual | user | approval | default

record ProcedureStage =
  label :: string
  stageType :: StageType

text \<open>
  A React Flow node with the properties of \<open>data\<close> that the engine reads; a property is
  \<open>None\<close> when it or \<open>data\<close> is missing.
\<close>

record FlowNode =
  nodeId :: string
  nodeType :: "string option"
  casesPerMinute :: "real option"
  holdDurationMin :: "real option"
  holdDurationMax :: "real option"
  retentionSeconds :: "real option"
  stages :: "ProcedureStage list option"

text \<open>
  \<open>cases\<close> is a \<open>Map\<close>: its entries in insertion order, no key twice. The callback
  \<open>onUpdate\<close> is not state: \<open>tick\<close> and \<open>reset\<close> return what they pass to it.
\<close>

record CaseEngine =
  cases :: "(string \<times> Case) list"
  config :: CaseEngineConfig
  proceduralOrder :: "string list"
  nodes :: "FlowNode list"
  lastSpawnTime :: real
  animationFrameId :: "nat option"
  caseIdCounter :: nat

definition DEFAULT_CONFIG :: CaseEngineConfig where
  "DEFAULT_CONFIG = \<lparr> transitionDuration = 100, stageDuration = 500 \<rparr>"

definition DEFAULT_PROCEDURE_STAGES :: "ProcedureStage list" where
  "DEFAULT_PROCEDURE_STAGES =
     [ \<lparr> label = ''Verify Email Recipient'', stageType = ai \<rparr>,
       \<lparr> label = ''Categorize Email'', stageType = manual \<rparr>,
       \<lparr> label = ''Extract Customer Details'', stageType = user \<rparr>,
       \<lparr> label = ''Find Master Service Agreement'', stageType = manual \<rparr>,
       \<lparr> label = ''Review Master Service Agreement'', stageType = ai \<rparr>,
       \<lparr> label = ''Verify Information Completeness'', stageType = approval \<rparr>,
       \<lparr> label = ''If Missing Info, Compose Response'', stageType = ai \<rparr>,
       \<lparr> label = ''Prepare Work Order'', stageType = ai \<rparr>,
       \<lparr> label = ''Select Subcontractor'', stageType = ai \<rparr>,
       \<lparr> label = ''Obtain Approval'', stageType = approval \<rparr> ]"

definition newCaseEngine :: "CaseEngineConfig \<Rightarrow> CaseEngine" where
  "newCaseEngine cfg =
     \<lparr> cases = [], config = cfg, proceduralOrder = [], nodes = [], lastSpawnTime = 0,
       animationFrameId = None, caseIdCounter = 0 \<rparr>"

definition setProceduralOrder :: "string list \<Rightarrow> CaseEngine \<Rightarrow> CaseEngine" where
  "setProceduralOrder order eng = eng\<lparr>proceduralOrder := order\<rparr>"

definition setNodes :: "FlowNode list \<Rightarrow> CaseEngine \<Rightarrow> CaseEngine" where
  "setNodes ns eng = eng\<lparr>nodes := ns\<rparr>"

subsection \<open>Map operations\<close>

text \<open>\<open>Map.set\<close> keeps the position of a key that is present and appends a new one.\<close>

fun mapSet :: "'k \<Rightarrow> 'v \<Rightarrow> ('k \<times> 'v) list \<Rightarrow> ('k \<times> 'v) list" where
  "mapSet k v [] = [(k, v)]"
| "mapSet k v ((k', v') # rest) =
     (if k' = k then (k, v) # rest else (k', v') # mapSet k v rest)"

definition mapDelete :: "'k \<Rightarrow> ('k \<times> 'v) list \<Rightarrow> ('k \<times> 'v) list" where
  "mapDelete k m = filter (\<lambda>entry. fst entry \<noteq> k) m"

subsection \<open>Lookups\<close>

definition findNode :: "CaseEngine \<Rightarrow> string \<Rightarrow> FlowNode option" where
  "findNode eng nid = find (\<lambda>n. nodeId n = nid) (nodes eng)"

definition orDefault :: "'a option \<Rightarrow> 'a \<Rightarrow> 'a" where
  "orDefault v d = (case v of None \<Rightarrow> d | Some a \<Rightarrow> a)"

text \<open>\<open>node?.data?.field ?? d\<close>\<close>

definition nodeField :: "FlowNode option \<Rightarrow> (FlowNode \<Rightarrow> 'a option) \<Rightarrow> 'a \<Rightarrow> 'a" where
  "nodeField node field d = (case node of None \<Rightarrow> d | Some n \<Rightarrow> orDefault (field n) d)"

record InboxConfig =
  inboxCasesPerMinute :: real
  inboxHoldDurationMin :: real
  inboxHoldDurationMax :: real

definition getInboxConfig :: "CaseEngine \<Rightarrow> InboxConfig" where
  "getInboxConfig eng =
     (let inbox = findNode eng ''inbox''
      in \<lparr> inboxCasesPerMinute = nodeField inbox casesPerMinute 2,
           inboxHoldDurationMin = nodeField inbox holdDurationMin 500,
           inboxHoldDurationMax = nodeField inbox holdDurationMax 2000 \<rparr>)"

text \<open>\<open>getOutboxConfig().retentionSeconds\<close>\<close>

definition getOutboxRetention :: "CaseEngine \<Rightarrow> real" where
  "getOutboxRetention eng = nodeField (findNode eng ''outbox'') retentionSeconds 3"

text \<open>\<open>getProcedureConfig(nodeId).stages\<close>\<close>

definition getProcedureStages :: "CaseEngine \<Rightarrow> string \<Rightarrow> ProcedureStage list" where
  "getProcedureStages eng nid = nodeField (findNode eng nid) stages DEFAULT_PROCEDURE_STAGES"

text \<open>\<open>Array.indexOf\<close>: the first position of the element, \<open>-1\<close> when it is absent.\<close>

fun indexOf :: "'a list \<Rightarrow> 'a \<Rightarrow> int" where
  "indexOf [] a = -1"
| "indexOf (b # bs) a =
     (if b = a then 0 else (let i = indexOf bs a in if i = -1 then -1 else i + 1))"

definition getNextNodeId :: "CaseEngine \<Rightarrow> string \<Rightarrow> string option" where
  "getNextNodeId eng current =
     (let currentIndex = indexOf (proceduralOrder eng) current
      in if currentIndex = -1 \<or> int (length (proceduralOrder eng)) - 1 \<le> currentIndex then None
         else Some (proceduralOrder eng ! nat (currentIndex + 1)))"

definition getNodeType :: "CaseEngine \<Rightarrow> string \<Rightarrow> string option" where
  "getNodeType eng nid = (case findNode eng nid of None \<Rightarrow> None | Some n \<Rightarrow> nodeType n)"

text \<open>
  The test \<open>if (nextNodeId)\<close>: a string is taken for present when it is neither \<open>null\<close> nor
  empty.
\<close>

definition truthy :: "string option \<Rightarrow> bool" where
  "truthy v = (case v of None \<Rightarrow> False | Some s \<Rightarrow> s \<noteq> [])"

subsection \<open>Spawning a case\<close>

text \<open>The decimal rendering of the counter in the template string.\<close>

fun string_of_nat :: "nat \<Rightarrow> string" where
  "string_of_nat n =
     (if n < 10 then [''0123456789'' ! n]
      else string_of_nat (n div 10) @ [''0123456789'' ! (n mod 10)])"

declare string_of_nat.simps [simp del]

text \<open>
  \<open>spawnCase\<close>, with its own reading \<open>now\<close> of the clock and its draw \<open>r\<close> of
  \<open>Math.random()\<close>.
\<close>

definition spawnCase :: "real \<Rightarrow> real \<Rightarrow> CaseEngine \<Rightarrow> CaseEngine" where
  "spawnCase now r eng =
     (let counter = Suc (caseIdCounter eng);
          ident = ''case-'' @ string_of_nat counter;
          inboxConfig = getInboxConfig eng;
          hold = inboxHoldDurationMin inboxConfig
                   + r * (inboxHoldDurationMax inboxConfig - inboxHoldDurationMin inboxConfig);
          newCase = \<lparr> caseId = ident, state = at_inbox, currentNodeId = ''inbox'',
                      currentStageIndex = -1, progress = Num 0, spawnedAt = now,
                      stateStartedAt = now, holdDuration = Some hold \<rparr>
      in eng\<lparr>caseIdCounter := counter, cases := mapSet ident newCase (cases eng)\<rparr>)"

subsection \<open>One step of a case\<close>

text \<open>\<open>updateCase\<close>: \<open>None\<close> is the source's \<open>null\<close>, the request to remove the case.\<close>

definition updateCase :: "CaseEngine \<Rightarrow> Case \<Rightarrow> real \<Rightarrow> Case option" where
  "updateCase eng caseItem now =
     (let elapsed = now - stateStartedAt caseItem
      in case state caseItem of
           at_inbox \<Rightarrow>
             (let hold = orDefault (holdDuration caseItem) 1000
              in if hold \<le> elapsed \<and> truthy (getNextNodeId eng (currentNodeId caseItem))
                 then Some (caseItem\<lparr>state := transitioning, progress := Num 0,
                                      stateStartedAt := now\<rparr>)
                 else Some caseItem)
         | transitioning \<Rightarrow>
             (let prog = js_min1 (js_div elapsed (transitionDuration (config eng)));
                  nextNodeId = getNextNodeId eng (currentNodeId caseItem)
              in if js_ge1 prog then
                   (case nextNodeId of
                      None \<Rightarrow> Some caseItem
                    | Some nxt \<Rightarrow>
                        if nxt = [] then Some caseItem
                        else if getNodeType eng nxt = Some ''outbox'' then
                          Some (caseItem\<lparr>state := at_outbox, currentNodeId := nxt,
                                         currentStageIndex := -1, progress := Num 0,
                                         stateStartedAt := now\<rparr>)
                        else if getNodeType eng nxt = Some ''procedure'' then
                          Some (caseItem\<lparr>state := at_procedure_stage, currentNodeId := nxt,
                                         currentStageIndex := 0, progress := Num 0,
                                         stateStartedAt := now\<rparr>)
                        else Some (caseItem\<lparr>progress := prog\<rparr>))
                 else Some (caseItem\<lparr>progress := prog\<rparr>))
         | at_procedure_stage \<Rightarrow>
             (let prog = js_min1 (js_div elapsed (stageDuration (config eng)));
                  procStages = getProcedureStages eng (currentNodeId caseItem)
              in if js_ge1 prog then
                   (if currentStageIndex caseItem < int (length procStages) - 1 then
                      Some (caseItem\<lparr>currentStageIndex := currentStageIndex caseItem + 1,
                                     progress := Num 0, stateStartedAt := now\<rparr>)
                    else
                      Some (caseItem\<lparr>state := transitioning, progress := Num 0,
                                     stateStartedAt := now\<rparr>))
                 else Some (caseItem\<lparr>progress := prog\<rparr>))
         | at_outbox \<Rightarrow>
             (let retention = getOutboxRetention eng
              in if retention * 1000 \<le> elapsed then None
                 else Some (caseItem\<lparr>progress := js_div elapsed (retention * 1000)\<rparr>))
         | at_procedure \<Rightarrow> Some caseItem)"

subsection \<open>The tick\<close>

text \<open>
  The loop over the entries of \<open>cases\<close>: an updated case is stored under its key, the key
  of a case to remove is collected.
\<close>

fun updateAll ::
    "CaseEngine \<Rightarrow> real \<Rightarrow> (string \<times> Case) list \<Rightarrow> (string \<times> Case) list \<times> string list
      \<Rightarrow> (string \<times> Case) list \<times> string list" where
  "updateAll eng now [] acc = acc"
| "updateAll eng now ((k, caseItem) # rest) (m, casesToRemove) =
     (case updateCase eng caseItem now of
        None \<Rightarrow> updateAll eng now rest (m, casesToRemove @ [k])
      | Some updated \<Rightarrow> updateAll eng now rest (mapSet k updated m, casesToRemove))"

text \<open>
  \<open>tick\<close>, with the clock reading \<open>now\<close> of the tick, the later reading \<open>spawnNow\<close> inside
  \<open>spawnCase\<close>, the draw \<open>r\<close> for the hold duration and the handle \<open>frame\<close> that
  \<open>requestAnimationFrame\<close> returns. The second component is the list passed to \<open>onUpdate\<close>.
  \<open>spawnIfDue\<close> is the first block of the method, the spawn by rate.
\<close>

definition spawnIfDue :: "real \<Rightarrow> real \<Rightarrow> real \<Rightarrow> CaseEngine \<Rightarrow> CaseEngine" where
  "spawnIfDue now spawnNow r eng =
     (let inboxConfig = getInboxConfig eng
      in if 0 < inboxCasesPerMinute inboxConfig
            \<and> 60000 / inboxCasesPerMinute inboxConfig \<le> now - lastSpawnTime eng
         then (spawnCase spawnNow r eng)\<lparr>lastSpawnTime := now\<rparr>
         else eng)"

definition tick :: "real \<Rightarrow> real \<Rightarrow> real \<Rightarrow> nat \<Rightarrow> CaseEngine \<Rightarrow> CaseEngine \<times> Case list" where
  "tick now spawnNow r frame eng =
     (let eng1 = spawnIfDue now spawnNow r eng;
          (m, casesToRemove) = updateAll eng1 now (cases eng1) (cases eng1, []);
          eng2 = eng1\<lparr>cases := fold mapDelete casesToRemove m\<rparr>
      in (eng2\<lparr>animationFrameId := Some frame\<rparr>, map snd (cases eng2)))"

definition start :: "real \<Rightarrow> nat \<Rightarrow> CaseEngine \<Rightarrow> CaseEngine" where
  "start now frame eng =
     (if animationFrameId eng \<noteq> None then eng
      else eng\<lparr>lastSpawnTime := now, animationFrameId := Some frame\<rparr>)"

definition stop :: "CaseEngine \<Rightarrow> CaseEngine" where
  "stop eng = (if animationFrameId eng \<noteq> None then eng\<lparr>animationFrameId := None\<rparr> else eng)"

definition reset :: "CaseEngine \<Rightarrow> CaseEngine \<times> Case list" where
  "reset eng = ((stop eng)\<lparr>cases := [], caseIdCounter := 0\<rparr>, [])"

definition getCases :: "CaseEngine \<Rightarrow> Case list" where
  "getCases eng = map snd (cases eng)"

section \<open>ParticleSystem.ts\<close>

subsection \<open>Data\<close>

record EdgePath =
  sourceX :: real
  sourceY :: real
  targetX :: real
  targetY :: real

record EdgeInfo =
  edgeId :: string
  target :: string
  weight :: real

type_synonym adjacency = "string \<rightharpoonup> EdgeInfo list"

text \<open>
  \<open>Math.random()\<close> is a stream of draws from \<open>[0, 1)\<close>; a function reads it through a
  cursor and returns the cursor behind the draws it consumed.
\<close>

type_synonym draws = "nat \<Rightarrow> real"

definition const_draws :: "real \<Rightarrow> draws" where
  "const_draws r i = r"

subsection \<open>The weighted random walk\<close>

text \<open>
  The \<open>for (const edge of edges)\<close> loop of \<open>_generatePath\<close>: \<open>r\<close> is lowered by each weight
  in list order, the first edge that brings it to zero or below is chosen, and \<open>chosen\<close>
  keeps its initial value \<open>edges[0]\<close> when no edge does.
\<close>

fun chooseEdge :: "EdgeInfo list \<Rightarrow> real \<Rightarrow> EdgeInfo \<Rightarrow> EdgeInfo" where
  "chooseEdge [] r chosen = chosen"
| "chooseEdge (edge # rest) r chosen =
     (let r' = r - weight edge in if r' \<le> 0 then edge else chooseEdge rest r' chosen)"

definition totalWeight :: "EdgeInfo list \<Rightarrow> real" where
  "totalWeight edges = foldl (\<lambda>sum e. sum + weight e) 0 edges"

text \<open>
  The \<open>while\<close> loop of \<open>_generatePath\<close>, with the path built so far as accumulator. The
  loop has no bound of its own, so a walk that never meets a sink is the value \<open>None\<close>.
\<close>

partial_function (option) generatePathLoop ::
    "adjacency \<Rightarrow> draws \<Rightarrow> nat \<Rightarrow> string \<Rightarrow> string list \<Rightarrow> (string list \<times> nat) option" where
  "generatePathLoop adj rnd k current path =
     (case adj current of
        None \<Rightarrow> Some (path, k)
      | Some [] \<Rightarrow> Some (path, k)
      | Some (e0 # rest) \<Rightarrow>
          (let chosen = chooseEdge (e0 # rest) (rnd k * totalWeight (e0 # rest)) e0
           in generatePathLoop adj rnd (Suc k) (target chosen) (path @ [edgeId chosen])))"

definition generatePath :: "adjacency \<Rightarrow> draws \<Rightarrow> nat \<Rightarrow> string \<Rightarrow> (string list \<times> nat) option" where
  "generatePath adj rnd k startNodeId = generatePathLoop adj rnd k startNodeId []"

text \<open>A node is a sink when the map has no entry for it or an empty one.\<close>

definition isSink :: "adjacency \<Rightarrow> string \<Rightarrow> bool" where
  "isSink adj n = (case adj n of None \<Rightarrow> True | Some es \<Rightarrow> es = [])"


subsection \<open>Particles and the system state\<close>

text \<open>
  A particle's \<open>id\<close> is the base-36 rendering of one random draw; the model keeps the draw.
  \<open>color\<close> is \<open>None\<close> where the source reads \<open>colors[i]\<close> out of range (\<open>undefined\<close>).
  A trail point \<open>{x, y}\<close> is a pair.
\<close>

record Particle =
  pid :: real
  edgePath :: "string list"
  edgeIndex :: int
  progress :: real
  speed :: real
  color :: "string option"
  trail :: "(real \<times> real) list"
  maxTrailLength :: real
  psize :: real
  lateralOffset :: real

text \<open>
  \<open>Required<ParticleSystemConfig>\<close>. \<open>maxParticles\<close> and \<open>trailLength\<close> are numbers like
  the rest: neither the constructor nor \<open>updateConfig\<close> rounds or checks them, so they
  need not be whole.
\<close>

record ParticleSystemConfig =
  maxParticles :: real
  spawnRate :: real
  flowSpeed :: real
  colors :: "string list"
  trailLength :: real
  particleSizeRange :: "real \<times> real"
  speedVariation :: "real \<times> real"
  startNodeId :: "string option"
  showTrails :: bool
  trajectoryColor :: string
  trajectoryOpacity :: real
  trajectoryWidth :: real
  lateralSpread :: real

record ParticleSystem =
  particles :: "Particle list"
  edgePaths :: "string \<rightharpoonup> EdgePath"
  adjacency :: adjacency
  selectedEdgeIds :: "string list"
  config :: ParticleSystemConfig
  lastSpawnTime :: real
  completedCount :: nat
  recentCompletions :: "real list"

text \<open>The constructor called with no argument: every field takes its default.\<close>

definition defaultConfig :: ParticleSystemConfig where
  "defaultConfig =
     \<lparr> maxParticles = 50, spawnRate = 3, flowSpeed = 1,
       colors = [''#6366f1'', ''#8b5cf6'', ''#a78bfa''],
       trailLength = 25, particleSizeRange = (3, 5), speedVariation = (4 / 10, 8 / 10),
       startNodeId = None, showTrails = True, trajectoryColor = ''#000000'',
       trajectoryOpacity = 6 / 100, trajectoryWidth = 15 / 10, lateralSpread = 0 \<rparr>"

definition newParticleSystem :: "ParticleSystemConfig \<Rightarrow> ParticleSystem" where
  "newParticleSystem cfg =
     \<lparr> particles = [], edgePaths = Map.empty, adjacency = Map.empty, selectedEdgeIds = [],
       config = cfg, lastSpawnTime = 0, completedCount = 0, recentCompletions = [] \<rparr>"

subsection \<open>Configuration methods\<close>

text \<open>An edge as React Flow hands it over; \<open>feWeight\<close> is \<open>edge.data?.weight\<close>.\<close>

record FlowEdge =
  feId :: string
  feSource :: string
  feTarget :: string
  feWeight :: "real option"

definition addEdge :: "FlowEdge \<Rightarrow> adjacency \<Rightarrow> adjacency" where
  "addEdge edge adj =
     (let known = (case adj (feSource edge) of None \<Rightarrow> [] | Some es \<Rightarrow> es)
      in adj(feSource edge \<mapsto>
           known @ [\<lparr> edgeId = feId edge, target = feTarget edge,
                      weight = (case feWeight edge of None \<Rightarrow> 1 | Some w \<Rightarrow> w) \<rparr>]))"

definition buildAdjacency :: "FlowEdge list \<Rightarrow> ParticleSystem \<Rightarrow> ParticleSystem" where
  "buildAdjacency edges ps = ps\<lparr>adjacency := fold addEdge edges Map.empty\<rparr>"

definition setEdgePaths :: "(string \<rightharpoonup> EdgePath) \<Rightarrow> ParticleSystem \<Rightarrow> ParticleSystem" where
  "setEdgePaths paths ps = ps\<lparr>edgePaths := paths\<rparr>"

definition setStartNodeId :: "string option \<Rightarrow> ParticleSystem \<Rightarrow> ParticleSystem" where
  "setStartNodeId nid ps = ps\<lparr>config := (config ps)\<lparr>startNodeId := nid\<rparr>\<rparr>"

subsection \<open>Curve geometry\<close>

text \<open>
  \<open>_getPositionAlongEdge\<close>. The declared result type admits \<open>null\<close>, which the body never
  returns; the result is kept an option so that the caller's \<open>if (pos)\<close> stays visible.
\<close>

definition bezier :: "real \<Rightarrow> real \<Rightarrow> real \<Rightarrow> real \<Rightarrow> real \<Rightarrow> real" where
  "bezier c0 c1 c2 c3 t =
     (let mt = 1 - t; mt2 = mt * mt; mt3 = mt2 * mt; t2 = t * t; t3 = t2 * t
      in mt3 * c0 + 3 * mt2 * t * c1 + 3 * mt * t2 * c2 + t3 * c3)"

definition bezierDerivative :: "real \<Rightarrow> real \<Rightarrow> real \<Rightarrow> real \<Rightarrow> real \<Rightarrow> real" where
  "bezierDerivative c0 c1 c2 c3 t =
     (let mt = 1 - t; mt2 = mt * mt; t2 = t * t
      in 3 * mt2 * (c1 - c0) + 6 * mt * t * (c2 - c1) + 3 * t2 * (c3 - c2))"

definition getPositionAlongEdge ::
    "ParticleSystemConfig \<Rightarrow> EdgePath \<Rightarrow> real \<Rightarrow> real \<Rightarrow> (real \<times> real) option" where
  "getPositionAlongEdge cfg edgeData t offset =
     (let centerY = (sourceY edgeData + targetY edgeData) / 2;
          x = bezier (sourceX edgeData) (sourceX edgeData) (targetX edgeData) (targetX edgeData) t;
          y = bezier (sourceY edgeData) centerY centerY (targetY edgeData) t
      in if 0 < lateralSpread cfg \<and> offset \<noteq> 0 then
           (let dx = bezierDerivative (sourceX edgeData) (sourceX edgeData)
                       (targetX edgeData) (targetX edgeData) t;
                dy = bezierDerivative (sourceY edgeData) centerY centerY (targetY edgeData) t;
                len = sqrt (dx * dx + dy * dy)
            in if 0 < len then
                 Some (x + (- dy / len) * offset * lateralSpread cfg,
                       y + (dx / len) * offset * lateralSpread cfg)
               else Some (x, y))
         else Some (x, y))"

subsection \<open>Spawning\<close>

text \<open>
  The object literal pushed by the three spawn methods; its five draws are taken in the
  order of the properties.
\<close>

definition pickColor :: "string list \<Rightarrow> real \<Rightarrow> string option" where
  "pickColor cs r =
     (let i = \<lfloor>r * real (length cs)\<rfloor>
      in if 0 \<le> i \<and> i < int (length cs) then Some (cs ! nat i) else None)"

definition newParticle :: "ParticleSystemConfig \<Rightarrow> draws \<Rightarrow> nat \<Rightarrow> string list \<Rightarrow> Particle" where
  "newParticle cfg rnd k path =
     (let (minSize, maxSize) = particleSizeRange cfg;
          (minSpeed, maxSpeed) = speedVariation cfg
      in \<lparr> pid = rnd k,
           edgePath = path,
           edgeIndex = 0,
           progress = 0,
           speed = minSpeed + rnd (k + 1) * (maxSpeed - minSpeed),
           color = pickColor (colors cfg) (rnd (k + 2)),
           trail = [],
           maxTrailLength = trailLength cfg,
           psize = minSize + rnd (k + 3) * (maxSize - minSize),
           lateralOffset = rnd (k + 4) * 2 - 1 \<rparr>)"


definition atCapacity :: "ParticleSystem \<Rightarrow> bool" where
  "atCapacity ps = (maxParticles (config ps) \<le> real (length (particles ps)))"

text \<open>
  The tail shared by the three spawn methods: generate the path, return if it is empty,
  push the particle. A walk that does not end leaves the method without a result.
\<close>

definition pushParticleFrom :: "draws \<Rightarrow> string \<Rightarrow> ParticleSystem \<Rightarrow> ParticleSystem option" where
  "pushParticleFrom rnd nid ps =
     (case generatePath (adjacency ps) rnd 0 nid of
        None \<Rightarrow> None
      | Some (path, k) \<Rightarrow>
          if path = [] then Some ps
          else Some (ps\<lparr>particles := particles ps @ [newParticle (config ps) rnd k path]\<rparr>))"

definition spawnParticle :: "draws \<Rightarrow> real \<Rightarrow> ParticleSystem \<Rightarrow> ParticleSystem option" where
  "spawnParticle rnd time ps =
     (case startNodeId (config ps) of
        None \<Rightarrow> Some ps
      | Some startId \<Rightarrow>
          if startId = [] then Some ps
          else if atCapacity ps then Some ps
          else if js_lt (time - lastSpawnTime ps) (js_div 1000 (spawnRate (config ps)))
            then Some ps
          else pushParticleFrom rnd startId (ps\<lparr>lastSpawnTime := time\<rparr>))"

definition spawnOne :: "draws \<Rightarrow> ParticleSystem \<Rightarrow> ParticleSystem option" where
  "spawnOne rnd ps =
     (case startNodeId (config ps) of
        None \<Rightarrow> Some ps
      | Some startId \<Rightarrow>
          if startId = [] then Some ps
          else if atCapacity ps then Some ps
          else pushParticleFrom rnd startId ps)"

definition spawnFrom :: "draws \<Rightarrow> string \<Rightarrow> ParticleSystem \<Rightarrow> ParticleSystem option" where
  "spawnFrom rnd nid ps =
     (if atCapacity ps then Some ps else pushParticleFrom rnd nid ps)"


subsection \<open>The update pass\<close>

text \<open>A particle has completed all its edges when its index has reached the end of its path.\<close>

definition completed :: "Particle \<Rightarrow> bool" where
  "completed p = (int (length (edgePath p)) \<le> edgeIndex p)"

text \<open>
  \<open>p.edgePath[p.edgeIndex]\<close> followed by \<open>edgePaths.get\<close>: an index outside the array
  reads \<open>undefined\<close>, for which the map has no entry.
\<close>

definition currentEdgeData :: "(string \<rightharpoonup> EdgePath) \<Rightarrow> Particle \<Rightarrow> EdgePath option" where
  "currentEdgeData paths p =
     (if 0 \<le> edgeIndex p \<and> edgeIndex p < int (length (edgePath p))
      then paths (edgePath p ! nat (edgeIndex p)) else None)"

text \<open>\<open>trail.unshift(pos)\<close>, then one \<open>pop\<close> when the trail has become too long.\<close>

definition recordTrail :: "(real \<times> real) \<Rightarrow> Particle \<Rightarrow> Particle" where
  "recordTrail pos p =
     (let tr = pos # trail p
      in p\<lparr>trail := (if maxTrailLength p < real (length tr) then butlast tr else tr)\<rparr>)"

text \<open>The body of the \<open>forEach\<close> callback behind the completion check.\<close>

definition advanceParticle ::
    "ParticleSystemConfig \<Rightarrow> (string \<rightharpoonup> EdgePath) \<Rightarrow> real \<Rightarrow> Particle \<Rightarrow> Particle" where
  "advanceParticle cfg paths dt p =
     (let speedMultiplier = flowSpeed cfg * speed p;
          p1 = p\<lparr>progress := progress p + dt * speedMultiplier * (1 / 1000)\<rparr>;
          p2 = (case currentEdgeData paths p1 of
                  None \<Rightarrow> p1
                | Some edgeData \<Rightarrow>
                    (case getPositionAlongEdge cfg edgeData (progress p1) (lateralOffset p1) of
                       None \<Rightarrow> p1
                     | Some pos \<Rightarrow> recordTrail pos p1))
      in if 1 \<le> progress p2 then p2\<lparr>progress := 0, edgeIndex := edgeIndex p2 + 1\<rparr> else p2)"

text \<open>
  The \<open>forEach\<close> over the particles with their indices: a completed particle is left as it
  is and its index collected in \<open>toRemove\<close>, any other particle is advanced in place.
\<close>

fun forEachParticle ::
    "ParticleSystemConfig \<Rightarrow> (string \<rightharpoonup> EdgePath) \<Rightarrow> real \<Rightarrow> nat \<Rightarrow> Particle list
      \<Rightarrow> Particle list \<times> nat list" where
  "forEachParticle cfg paths dt i [] = ([], [])"
| "forEachParticle cfg paths dt i (p # rest) =
     (let (rest', toRemove) = forEachParticle cfg paths dt (Suc i) rest
      in if completed p then (p # rest', i # toRemove)
         else (advanceParticle cfg paths dt p # rest', toRemove))"

text \<open>\<open>particles.splice(i, 1)\<close>\<close>

definition splice1 :: "nat \<Rightarrow> 'a list \<Rightarrow> 'a list" where
  "splice1 i xs = take i xs @ drop (Suc i) xs"

text \<open>
  \<open>_updateParticles\<close>. Every completion of one pass is stamped with the same reading
  \<open>now\<close> of \<open>Date.now()\<close>.
\<close>

definition updateParticles :: "real \<Rightarrow> real \<Rightarrow> ParticleSystem \<Rightarrow> ParticleSystem" where
  "updateParticles dt now ps =
     (let (visited, toRemove) = forEachParticle (config ps) (edgePaths ps) dt 0 (particles ps)
      in ps\<lparr> particles := fold splice1 (rev toRemove) visited,
              completedCount := completedCount ps + length toRemove,
              recentCompletions := recentCompletions ps @ replicate (length toRemove) now \<rparr>)"

definition cleanupCompletions :: "real \<Rightarrow> ParticleSystem \<Rightarrow> ParticleSystem" where
  "cleanupCompletions now ps =
     ps\<lparr>recentCompletions := filter (\<lambda>t. now - 5000 < t) (recentCompletions ps)\<rparr>"

definition update :: "draws \<Rightarrow> real \<Rightarrow> real \<Rightarrow> real \<Rightarrow> ParticleSystem \<Rightarrow> ParticleSystem option" where
  "update rnd dt time now ps =
     (case spawnParticle rnd time ps of
        None \<Rightarrow> None
      | Some ps1 \<Rightarrow> Some (cleanupCompletions now (updateParticles dt now ps1)))"

definition clear :: "ParticleSystem \<Rightarrow> ParticleSystem" where
  "clear ps = ps\<lparr>particles := []\<rparr>"

text \<open>
  The calls a client makes on a running system, and a run of them in order. A call that does
  not return ends the run without a result.
\<close>

datatype call =
    Update draws real real real
  | SpawnOne draws
  | SpawnFrom draws string

fun perform :: "call \<Rightarrow> ParticleSystem \<Rightarrow> ParticleSystem option" where
  "perform (Update rnd dt time now) ps = update rnd dt time now ps"
| "perform (SpawnOne rnd) ps = spawnOne rnd ps"
| "perform (SpawnFrom rnd nid) ps = spawnFrom rnd nid ps"

fun performAll :: "call list \<Rightarrow> ParticleSystem \<Rightarrow> ParticleSystem option" where
  "performAll [] ps = Some ps"
| "performAll (c # cs) ps =
     (case perform c ps of None \<Rightarrow> None | Some ps' \<Rightarrow> performAll cs ps')"


section \<open>Properties stated about the two services\<close>

subsection \<open>Predicates\<close>

text \<open>
  An adjacency map is acyclic when some rank falls strictly along every edge. A path leads
  from a node to a sink when its edge ids can be followed one after the other and the node
  reached last has no outgoing edge.
\<close>

definition acyclicBy :: "(string \<Rightarrow> nat) \<Rightarrow> adjacency \<Rightarrow> bool" where
  "acyclicBy rank adj =
     (\<forall>n es. adj n = Some es \<longrightarrow> (\<forall>e \<in> set es. rank (target e) < rank n))"

fun endsAtSink :: "adjacency \<Rightarrow> string \<Rightarrow> string list \<Rightarrow> bool" where
  "endsAtSink adj n [] = isSink adj n"
| "endsAtSink adj n (e # es) =
     (case adj n of
        None \<Rightarrow> False
      | Some out \<Rightarrow> list_ex (\<lambda>edge. edgeId edge = e \<and> endsAtSink adj (target edge) es) out)"

text \<open>
  The cubic B\'ezier curve of four control values by repeated linear interpolation, to
  compare the polynomial of \<open>_getPositionAlongEdge\<close> with.
\<close>

definition lerp :: "real \<Rightarrow> real \<Rightarrow> real \<Rightarrow> real" where
  "lerp a b t = (1 - t) * a + t * b"

definition cubicBezier :: "real \<Rightarrow> real \<Rightarrow> real \<Rightarrow> real \<Rightarrow> real \<Rightarrow> real" where
  "cubicBezier c0 c1 c2 c3 t =
     lerp (lerp (lerp c0 c1 t) (lerp c1 c2 t) t) (lerp (lerp c1 c2 t) (lerp c2 c3 t) t) t"

definition indexInRange :: "Particle \<Rightarrow> bool" where
  "indexInRange p = (0 \<le> edgeIndex p \<and> edgeIndex p \<le> int (length (edgePath p)))"

definition liveCount :: "ParticleSystem \<Rightarrow> nat" where
  "liveCount ps = length (particles ps)"

definition withinCapacity :: "ParticleSystem \<Rightarrow> bool" where
  "withinCapacity ps = (real (liveCount ps) \<le> maxParticles (config ps))"

text \<open>The live count is at most \<open>maxParticles\<close> rounded up to a whole number.\<close>

definition withinCeiling :: "ParticleSystem \<Rightarrow> bool" where
  "withinCeiling ps = (int (liveCount ps) \<le> \<lceil>maxParticles (config ps)\<rceil>)"


text \<open>
  The condition under which \<open>updateCase\<close> leaves the waiting part of a state: the hold
  duration has passed, the progress has reached one, or the retention has passed.
\<close>

definition triggerFired :: "CaseEngine \<Rightarrow> Case \<Rightarrow> real \<Rightarrow> bool" where
  "triggerFired eng caseItem now =
     (let elapsed = now - stateStartedAt caseItem
      in case state caseItem of
           at_inbox \<Rightarrow> orDefault (holdDuration caseItem) 1000 \<le> elapsed
         | transitioning \<Rightarrow>
             js_ge1 (js_min1 (js_div elapsed (transitionDuration (CaseEngine.config eng))))
         | at_procedure_stage \<Rightarrow>
             js_ge1 (js_min1 (js_div elapsed (stageDuration (CaseEngine.config eng))))
         | at_outbox \<Rightarrow> getOutboxRetention eng * 1000 \<le> elapsed
         | at_procedure \<Rightarrow> False)"

text \<open>What one pass of the loop in \<open>tick\<close> does to an entry, and whether it marks it.\<close>

definition updateEntry :: "CaseEngine \<Rightarrow> real \<Rightarrow> string \<times> Case \<Rightarrow> string \<times> Case" where
  "updateEntry eng now entry =
     (case updateCase eng (snd entry) now of
        None \<Rightarrow> entry
      | Some updated \<Rightarrow> (fst entry, updated))"

definition expired :: "CaseEngine \<Rightarrow> real \<Rightarrow> string \<times> Case \<Rightarrow> bool" where
  "expired eng now entry = (updateCase eng (snd entry) now = None)"

text \<open>A case followed through the ticks at the given clock readings.\<close>

fun updateCaseAt :: "CaseEngine \<Rightarrow> real list \<Rightarrow> Case \<Rightarrow> Case option" where
  "updateCaseAt eng [] caseItem = Some caseItem"
| "updateCaseAt eng (now # later) caseItem =
     (case updateCase eng caseItem now of
        None \<Rightarrow> None
      | Some c \<Rightarrow> updateCaseAt eng later c)"

subsection \<open>Concrete graphs, engines and systems\<close>

definition loop_adjacency :: adjacency where
  "loop_adjacency = [''a'' \<mapsto> [\<lparr> edgeId = ''e'', target = ''a'', weight = 1 \<rparr>]]"

definition chain_adjacency :: adjacency where
  "chain_adjacency =
     [''a'' \<mapsto> [\<lparr> edgeId = ''e1'', target = ''b'', weight = 1 \<rparr>],
      ''b'' \<mapsto> [\<lparr> edgeId = ''e2'', target = ''c'', weight = 1 \<rparr>]]"

definition chainRank :: "string \<Rightarrow> nat" where
  "chainRank n = (if n = ''a'' then 2 else if n = ''b'' then 1 else 0)"

definition entryEdge :: EdgeInfo where
  "entryEdge = \<lparr> edgeId = ''e'', target = ''exit'', weight = 1 \<rparr>"

definition two_node_adjacency :: adjacency where
  "two_node_adjacency = [''entry'' \<mapsto> [entryEdge]]"

definition twoNodeRank :: "string \<Rightarrow> nat" where
  "twoNodeRank n = (if n = ''entry'' then 1 else 0)"

definition spreadConfig :: ParticleSystemConfig where
  "spreadConfig = defaultConfig\<lparr>lateralSpread := 10\<rparr>"

definition verticalEdge :: EdgePath where
  "verticalEdge = \<lparr> sourceX = 0, sourceY = 0, targetX = 0, targetY = 100 \<rparr>"

definition horizontalEdge :: EdgePath where
  "horizontalEdge = \<lparr> sourceX = 0, sourceY = 0, targetX = 100, targetY = 0 \<rparr>"

text \<open>
  The two-node graph with room for one particle and ten spawns a second; the same system
  started at the sink; the graph with the default configuration, which has no start node;
  and a system whose only particle has walked its whole path.
\<close>

definition scenarioSystem :: ParticleSystem where
  "scenarioSystem =
     (newParticleSystem
        (defaultConfig\<lparr>maxParticles := 1, spawnRate := 10, startNodeId := Some ''entry''\<rparr>))
       \<lparr>adjacency := two_node_adjacency\<rparr>"



text \<open>The two-node graph with \<open>maxParticles\<close> set to one and a half, and two manual spawns.\<close>

definition fractionalSystem :: ParticleSystem where
  "fractionalSystem =
     scenarioSystem\<lparr>config := (config scenarioSystem)\<lparr>maxParticles := 3 / 2\<rparr>\<rparr>"

definition twoSpawns :: "call list" where
  "twoSpawns = [SpawnOne (const_draws 0), SpawnOne (const_draws 0)]"

definition arrivedParticle :: Particle where
  "arrivedParticle =
     \<lparr> pid = 0, edgePath = [''e''], edgeIndex = 1, progress = 0, speed = 1 / 2,
       color = Some ''#6366f1'', trail = [], maxTrailLength = 25, psize = 3,
       lateralOffset = 0 \<rparr>"

definition arrivedSystem :: ParticleSystem where
  "arrivedSystem = scenarioSystem\<lparr>particles := [arrivedParticle]\<rparr>"

definition scenarioCalls :: "call list" where
  "scenarioCalls =
     [ Update (const_draws 0) 16 100 100, SpawnOne (const_draws 0),
       SpawnFrom (const_draws 0) ''entry'', Update (const_draws 0) 16 200 200 ]"

definition demoNodes :: "FlowNode list" where
  "demoNodes =
     [ \<lparr> nodeId = ''inbox'', nodeType = Some ''inbox'', casesPerMinute = Some 60,
         holdDurationMin = Some 500, holdDurationMax = Some 500, retentionSeconds = None,
         stages = None \<rparr>,
       \<lparr> nodeId = ''proc'', nodeType = Some ''procedure'', casesPerMinute = None,
         holdDurationMin = None, holdDurationMax = None, retentionSeconds = None,
         stages = Some [ \<lparr> label = ''Review'', stageType = ai \<rparr>,
                         \<lparr> label = ''Approve'', stageType = approval \<rparr> ] \<rparr>,
       \<lparr> nodeId = ''outbox'', nodeType = Some ''outbox'', casesPerMinute = None,
         holdDurationMin = None, holdDurationMax = None, retentionSeconds = Some 3,
         stages = None \<rparr> ]"

definition demoEngine :: CaseEngine where
  "demoEngine =
     setNodes demoNodes
       (setProceduralOrder [''inbox'', ''proc'', ''outbox''] (newCaseEngine DEFAULT_CONFIG))"

text \<open>The case that \<open>spawnCase\<close> creates first, at time 0 with the draw 0.\<close>

definition firstCase :: Case where
  "firstCase =
     \<lparr> caseId = ''case-1'', state = at_inbox, currentNodeId = ''inbox'',
       currentStageIndex = -1, progress = Num 0, spawnedAt = 0, stateStartedAt = 0,
       holdDuration = Some 500 \<rparr>"

text \<open>
  An engine with no procedural order, and one whose only case has reached the outbox at
  time 1000 and that spawned last at time 3500.
\<close>

definition unorderedEngine :: CaseEngine where
  "unorderedEngine = setNodes demoNodes (newCaseEngine DEFAULT_CONFIG)"

definition arrivedCase :: Case where
  "arrivedCase =
     firstCase\<lparr>state := at_outbox, currentNodeId := ''outbox'', stateStartedAt := 1000\<rparr>"

definition arrivedEngine :: CaseEngine where
  "arrivedEngine =
     demoEngine\<lparr>cases := [(''case-1'', arrivedCase)], caseIdCounter := 1,
                 CaseEngine.lastSpawnTime := 3500\<rparr>"

text \<open>The engine with the first case waiting in the inbox.\<close>

definition waitingEngine :: CaseEngine where
  "waitingEngine = demoEngine\<lparr>cases := [(''case-1'', firstCase)], caseIdCounter := 1\<rparr>"

definition stageView :: "Case \<Rightarrow> CaseState \<times> int" where
  "stageView c = (state c, currentStageIndex c)"


section \<open>The router\<close>

lemma chooseEdge_mem: "chooseEdge es r c \<in> insert c (set es)"
  by (induction es arbitrary: r) (auto simp: Let_def)

lemma chooseEdge_single: "chooseEdge [e] r e = e"
  by (simp add: Let_def)

lemma generatePathLoop_sink:
  "isSink adj n \<Longrightarrow> generatePathLoop adj rnd k n path = Some (path, k)"
  by (subst generatePathLoop.simps) (auto simp: isSink_def split: option.splits list.splits)

lemma generatePathLoop_step:
  assumes "adj n = Some (e0 # rest)"
  shows "generatePathLoop adj rnd k n path =
           generatePathLoop adj rnd (Suc k)
             (target (chooseEdge (e0 # rest) (rnd k * totalWeight (e0 # rest)) e0))
             (path @ [edgeId (chooseEdge (e0 # rest) (rnd k * totalWeight (e0 # rest)) e0)])"
  by (subst generatePathLoop.simps) (simp add: assms Let_def del: chooseEdge.simps)

lemma generatePathLoop_single:
  assumes "adj n = Some [e]"
  shows "generatePathLoop adj rnd k n path =
           generatePathLoop adj rnd (Suc k) (target e) (path @ [edgeId e])"
  using generatePathLoop_step [where adj = adj and n = n and rnd = rnd and k = k
      and path = path, OF assms]
  by (simp only: chooseEdge_single)

text \<open>
  On an acyclic map the loop returns from every node: by induction on the rank of the
  node, since the chosen edge is one of the node's edges and leads to a lower rank.
\<close>

lemma generatePathLoop_acyclic:
  assumes "acyclicBy rank adj"
  shows "\<exists>p. generatePathLoop adj rnd k n path = Some (path @ p, k + length p)
             \<and> length p \<le> rank n \<and> endsAtSink adj n p"
proof (induction "rank n" arbitrary: n k path rule: less_induct)
  case less
  show ?case
  proof (cases "isSink adj n")
    case True
    then have "generatePathLoop adj rnd k n path = Some (path @ [], k + length ([]::string list))"
      by (simp add: generatePathLoop_sink)
    moreover from True have "endsAtSink adj n []" by simp
    ultimately show ?thesis by (intro exI [of _ "[]"]) simp
  next
    case False
    then obtain e0 rest where es: "adj n = Some (e0 # rest)"
      by (cases "adj n") (auto simp: isSink_def neq_Nil_conv)
    define c where "c = chooseEdge (e0 # rest) (rnd k * totalWeight (e0 # rest)) e0"
    have mem: "c \<in> set (e0 # rest)"
      using chooseEdge_mem [of "e0 # rest" "rnd k * totalWeight (e0 # rest)" e0]
      by (auto simp: c_def)
    with assms es have lt: "rank (target c) < rank n"
      by (auto simp: acyclicBy_def)
    from less [OF lt, of "Suc k" "path @ [edgeId c]"] obtain p where
      p: "generatePathLoop adj rnd (Suc k) (target c) (path @ [edgeId c])
            = Some ((path @ [edgeId c]) @ p, Suc k + length p)"
        "length p \<le> rank (target c)" "endsAtSink adj (target c) p"
      by blast
    have "generatePathLoop adj rnd k n path
            = Some (path @ (edgeId c # p), k + length (edgeId c # p))"
      using generatePathLoop_step [where adj = adj and n = n and rnd = rnd and k = k
          and path = path, OF es] p(1)
      by (simp add: c_def)
    moreover have "length (edgeId c # p) \<le> rank n"
      using p(2) lt by simp
    moreover have "endsAtSink adj n (edgeId c # p)"
      using es mem p(3) by (auto simp: list_ex_iff)
    ultimately show ?thesis by blast
  qed
qed

text \<open>
  On the self-loop the loop cannot return: were a call at \<open>''a''\<close> to return, the call it
  makes, again at \<open>''a''\<close>, would have returned before it.
\<close>

lemma self_loop_no_result:
  assumes "generatePathLoop adj rnd k n path = Some y"
  shows "adj = loop_adjacency \<longrightarrow> n \<noteq> ''a''"
proof (rule generatePathLoop.raw_induct
    [where P = "\<lambda>adj rnd k n path y. adj = loop_adjacency \<longrightarrow> n \<noteq> ''a''", OF _ assms],
    goal_cases)
  case (1 gen adj rnd k current path y)
  show ?case
  proof (intro impI notI)
    assume a: "adj = loop_adjacency" "current = ''a''"
    with 1(2) have "gen adj rnd (Suc k) ''a'' (path @ [''e'']) = Some y"
      by (simp add: loop_adjacency_def Let_def chooseEdge_single del: chooseEdge.simps)
    from 1(1) [OF this] a(1) show False by simp
  qed
qed

lemma chain_acyclic: "acyclicBy chainRank chain_adjacency"
  by (auto simp: acyclicBy_def chain_adjacency_def chainRank_def split: if_splits)

lemma two_node_acyclic: "acyclicBy twoNodeRank two_node_adjacency"
  by (auto simp: acyclicBy_def two_node_adjacency_def twoNodeRank_def entryEdge_def
      split: if_splits)

lemma two_node_sink: "isSink two_node_adjacency ''exit''"
  by (simp add: isSink_def two_node_adjacency_def)

lemma two_node_path:
  "generatePath two_node_adjacency rnd k ''entry'' = Some ([''e''], Suc k)"
  unfolding generatePath_def
  by (subst generatePathLoop_single [where e = entryEdge])
    (simp_all add: two_node_adjacency_def generatePathLoop_sink isSink_def entryEdge_def)

text \<open>
  C2, as the code has it. The walk has no hop bound. Where the adjacency map is acyclic,
  it returns from every start node, after at most as many hops as the rank of the start
  node, with a path that leads to a sink; a start node that is a sink returns at once.
\<close>

theorem walk_returns_on_acyclic_map:
  assumes "acyclicBy rank adj"
  shows "\<exists>p. generatePath adj rnd k n = Some (p, k + length p)
             \<and> length p \<le> rank n \<and> endsAtSink adj n p"
  using generatePathLoop_acyclic [OF assms, of rnd k n "[]"]
  by (simp add: generatePath_def)

theorem walk_returns_on_acyclic_map_witness:
  "acyclicBy chainRank chain_adjacency
   \<and> (\<exists>p. generatePath chain_adjacency (const_draws 0) 0 ''a'' = Some (p, 0 + length p)
          \<and> length p \<le> chainRank ''a'' \<and> endsAtSink chain_adjacency ''a'' p)"
  using chain_acyclic walk_returns_on_acyclic_map [OF chain_acyclic, of "const_draws 0" 0 "''a''"]
  by simp

text \<open>
  C2, as the claim states it, fails: on the map whose one edge leads from \<open>''a''\<close> back to
  \<open>''a''\<close> the walk from \<open>''a''\<close> never returns.
\<close>

theorem self_loop_walk_never_returns:
  "generatePath loop_adjacency (const_draws 0) 0 ''a'' = None"
proof (cases "generatePath loop_adjacency (const_draws 0) 0 ''a''")
  case None
  then show ?thesis .
next
  case (Some y)
  then show ?thesis
    using self_loop_no_result [of loop_adjacency "const_draws 0" 0 "''a''" "[]" y]
    by (simp add: generatePath_def)
qed

text \<open>
  C4, as the code has it. From a sink the router returns the empty path and draws nothing.
  From a node with exactly one outgoing edge it takes that edge whatever the draw, and goes
  on from the target of the edge: the path is that one edge when the target is a sink.
\<close>

theorem router_determinism:
  "(isSink adj n \<longrightarrow> generatePath adj rnd k n = Some ([], k))
   \<and> (adj n = Some [e] \<longrightarrow>
        generatePath adj rnd k n = generatePathLoop adj rnd (Suc k) (target e) [edgeId e])
   \<and> (adj n = Some [e] \<and> isSink adj (target e) \<longrightarrow>
        generatePath adj rnd k n = Some ([edgeId e], Suc k))"
  by (auto simp: generatePath_def generatePathLoop_sink generatePathLoop_single)

theorem router_determinism_witness:
  "isSink two_node_adjacency ''exit''
   \<and> two_node_adjacency ''entry'' = Some [entryEdge]
   \<and> generatePath two_node_adjacency (const_draws (1 / 2)) 0 ''exit'' = Some ([], 0)
   \<and> generatePath two_node_adjacency (const_draws (1 / 2)) 0 ''entry'' = Some ([''e''], 1)"
proof -
  have s: "isSink two_node_adjacency ''exit''" by (rule two_node_sink)
  have e: "two_node_adjacency ''entry'' = Some [entryEdge]"
    by (simp add: two_node_adjacency_def)
  have t: "isSink two_node_adjacency (target entryEdge)"
    by (simp add: entryEdge_def two_node_sink)
  from router_determinism [of two_node_adjacency "''exit''" "const_draws (1 / 2)" 0 entryEdge] s
  have "generatePath two_node_adjacency (const_draws (1 / 2)) 0 ''exit'' = Some ([], 0)"
    by simp
  moreover
  from router_determinism [of two_node_adjacency "''entry''" "const_draws (1 / 2)" 0 entryEdge] e t
  have "generatePath two_node_adjacency (const_draws (1 / 2)) 0 ''entry''
          = Some ([edgeId entryEdge], Suc 0)"
    by blast
  then have "generatePath two_node_adjacency (const_draws (1 / 2)) 0 ''entry'' = Some ([''e''], 1)"
    by (simp add: entryEdge_def)
  ultimately show ?thesis using s e by simp
qed

text \<open>
  C4, as the claim states it, fails: \<open>''a''\<close> has exactly one outgoing edge, of weight 1,
  and the path from \<open>''a''\<close> has two edges, because the target of the first is not a sink.
\<close>

theorem single_edge_start_walks_on:
  "chain_adjacency ''a'' = Some [\<lparr> edgeId = ''e1'', target = ''b'', weight = 1 \<rparr>]
   \<and> generatePath chain_adjacency (const_draws 0) 0 ''a'' = Some ([''e1'', ''e2''], 2)"
  unfolding generatePath_def
  apply (subst generatePathLoop.simps)
  apply (simp add: chain_adjacency_def Let_def chooseEdge_single del: chooseEdge.simps)
  apply (subst generatePathLoop.simps)
  apply (simp add: chain_adjacency_def Let_def chooseEdge_single del: chooseEdge.simps)
  apply (subst generatePathLoop.simps)
  apply (simp add: chain_adjacency_def Let_def chooseEdge_single del: chooseEdge.simps)
  done


section \<open>Curve geometry\<close>

lemma bezier_cubicBezier: "bezier c0 c1 c2 c3 t = cubicBezier c0 c1 c2 c3 t"
  by (simp add: bezier_def cubicBezier_def lerp_def Let_def algebra_simps)

lemma bezier_at_0: "bezier c0 c1 c2 c3 0 = c0"
  by (simp add: bezier_def)

lemma bezier_at_1: "bezier c0 c1 c2 c3 1 = c3"
  by (simp add: bezier_def)

lemma position_without_offset:
  assumes "\<not> (0 < lateralSpread cfg \<and> offset \<noteq> 0)"
  shows "getPositionAlongEdge cfg e t offset =
           Some (bezier (sourceX e) (sourceX e) (targetX e) (targetX e) t,
                 bezier (sourceY e) ((sourceY e + targetY e) / 2)
                   ((sourceY e + targetY e) / 2) (targetY e) t)"
  using assms by (auto simp: getPositionAlongEdge_def Let_def)

text \<open>
  With the lateral spread enabled and a lateral offset that is not zero, the tangent at
  either end of the curve is vertical, of length \<open>3/2 |targetY - sourceY|\<close>: the end point
  is moved sideways by the offset times the spread, against the sign of
  \<open>targetY - sourceY\<close>, and not at all when the two are equal and the tangent vanishes.
\<close>

lemma end_tangent:
  "bezierDerivative c c d d 0 = 0" "bezierDerivative c c d d 1 = 0"
  "bezierDerivative a ((a + b) / 2) ((a + b) / 2) b 0 = 3 / 2 * (b - a)"
  "bezierDerivative a ((a + b) / 2) ((a + b) / 2) b 1 = 3 / 2 * (b - a)"
  by (simp_all add: bezierDerivative_def Let_def algebra_simps)

lemma end_tangent_length:
  "sqrt (0 * 0 + (3 / 2 * d) * (3 / 2 * d)) = 3 / 2 * \<bar>d\<bar>"
proof -
  have "sqrt (0 * 0 + (3 / 2 * d) * (3 / 2 * d)) = sqrt ((3 / 2 * d) * (3 / 2 * d))"
    by simp
  also have "\<dots> = \<bar>3 / 2 * d\<bar>"
    by (rule real_sqrt_abs2)
  also have "\<dots> = 3 / 2 * \<bar>d\<bar>"
    by (simp add: abs_mult)
  finally show ?thesis .
qed

lemma unit_normal_at_end:
  "(if 0 < 3 / 2 * \<bar>d\<bar> then - (3 / 2 * d) / (3 / 2 * \<bar>d\<bar>) else 0) = - sgn (d::real)"
  by (simp add: sgn_real_def)

lemma position_with_offset_at_ends:
  assumes "0 < lateralSpread cfg" "offset \<noteq> 0"
  shows "getPositionAlongEdge cfg e 0 offset =
           Some (sourceX e - sgn (targetY e - sourceY e) * offset * lateralSpread cfg, sourceY e)"
    and "getPositionAlongEdge cfg e 1 offset =
           Some (targetX e - sgn (targetY e - sourceY e) * offset * lateralSpread cfg, targetY e)"
proof -
  define d where "d = targetY e - sourceY e"
  define n where "n = (if 0 < 3 / 2 * \<bar>d\<bar> then - (3 / 2 * d) / (3 / 2 * \<bar>d\<bar>) else 0)"
  have n: "n = - sgn d" unfolding n_def by (rule unit_normal_at_end)
  have "getPositionAlongEdge cfg e 0 offset
          = Some (sourceX e + n * offset * lateralSpread cfg, sourceY e)"
    unfolding getPositionAlongEdge_def Let_def end_tangent end_tangent_length bezier_at_0
      d_def [symmetric] n_def
    using assms by simp
  then show "getPositionAlongEdge cfg e 0 offset =
           Some (sourceX e - sgn (targetY e - sourceY e) * offset * lateralSpread cfg, sourceY e)"
    by (simp add: n d_def)
  have "getPositionAlongEdge cfg e 1 offset
          = Some (targetX e + n * offset * lateralSpread cfg, targetY e)"
    unfolding getPositionAlongEdge_def Let_def end_tangent end_tangent_length bezier_at_1
      d_def [symmetric] n_def
    using assms by simp
  then show "getPositionAlongEdge cfg e 1 offset =
           Some (targetX e - sgn (targetY e - sourceY e) * offset * lateralSpread cfg, targetY e)"
    by (simp add: n d_def)
qed

text \<open>
  C3, as the code has it. When the lateral spread is not enabled or the particle's lateral
  offset is zero, the position is the point of the cubic B\'ezier curve with the control
  points \<open>(sourceX, midY)\<close> and \<open>(targetX, midY)\<close>, and it is the source at \<open>t = 0\<close> and
  the target at \<open>t = 1\<close>. When the spread is enabled and the offset is not zero, the
  position at \<open>t = 0\<close> is the source and the position at \<open>t = 1\<close> the target, each moved
  in \<open>x\<close> by minus the sign of \<open>targetY - sourceY\<close> times the offset times the spread.
\<close>

theorem position_on_curve:
  "(lateralSpread cfg \<le> 0 \<or> offset = 0 \<longrightarrow>
      getPositionAlongEdge cfg e t offset =
        Some (cubicBezier (sourceX e) (sourceX e) (targetX e) (targetX e) t,
              cubicBezier (sourceY e) ((sourceY e + targetY e) / 2)
                ((sourceY e + targetY e) / 2) (targetY e) t)
      \<and> getPositionAlongEdge cfg e 0 offset = Some (sourceX e, sourceY e)
      \<and> getPositionAlongEdge cfg e 1 offset = Some (targetX e, targetY e))
   \<and> (0 < lateralSpread cfg \<and> offset \<noteq> 0 \<longrightarrow>
      getPositionAlongEdge cfg e 0 offset =
        Some (sourceX e - sgn (targetY e - sourceY e) * offset * lateralSpread cfg, sourceY e)
      \<and> getPositionAlongEdge cfg e 1 offset =
        Some (targetX e - sgn (targetY e - sourceY e) * offset * lateralSpread cfg, targetY e))"
proof (rule conjI)
  show "lateralSpread cfg \<le> 0 \<or> offset = 0 \<longrightarrow>
      getPositionAlongEdge cfg e t offset =
        Some (cubicBezier (sourceX e) (sourceX e) (targetX e) (targetX e) t,
              cubicBezier (sourceY e) ((sourceY e + targetY e) / 2)
                ((sourceY e + targetY e) / 2) (targetY e) t)
      \<and> getPositionAlongEdge cfg e 0 offset = Some (sourceX e, sourceY e)
      \<and> getPositionAlongEdge cfg e 1 offset = Some (targetX e, targetY e)"
  proof
    assume "lateralSpread cfg \<le> 0 \<or> offset = 0"
    then have n: "\<not> (0 < lateralSpread cfg \<and> offset \<noteq> 0)" by auto
    have "getPositionAlongEdge cfg e 0 offset = Some (sourceX e, sourceY e)"
      by (simp add: position_without_offset [OF n] bezier_at_0)
    moreover have "getPositionAlongEdge cfg e 1 offset = Some (targetX e, targetY e)"
      by (simp add: position_without_offset [OF n] bezier_at_1)
    ultimately show "getPositionAlongEdge cfg e t offset =
        Some (cubicBezier (sourceX e) (sourceX e) (targetX e) (targetX e) t,
              cubicBezier (sourceY e) ((sourceY e + targetY e) / 2)
                ((sourceY e + targetY e) / 2) (targetY e) t)
      \<and> getPositionAlongEdge cfg e 0 offset = Some (sourceX e, sourceY e)
      \<and> getPositionAlongEdge cfg e 1 offset = Some (targetX e, targetY e)"
      by (simp add: position_without_offset [OF n] bezier_cubicBezier)
  qed
next
  show "0 < lateralSpread cfg \<and> offset \<noteq> 0 \<longrightarrow>
      getPositionAlongEdge cfg e 0 offset =
        Some (sourceX e - sgn (targetY e - sourceY e) * offset * lateralSpread cfg, sourceY e)
      \<and> getPositionAlongEdge cfg e 1 offset =
        Some (targetX e - sgn (targetY e - sourceY e) * offset * lateralSpread cfg, targetY e)"
    using position_with_offset_at_ends [of cfg offset e] by blast
qed

theorem position_on_curve_witness:
  "(lateralSpread defaultConfig \<le> 0 \<or> (1::real) = 0)
   \<and> getPositionAlongEdge defaultConfig verticalEdge (1 / 2) 1 = Some (0, 50)
   \<and> getPositionAlongEdge defaultConfig verticalEdge 0 1 = Some (0, 0)
   \<and> getPositionAlongEdge defaultConfig verticalEdge 1 1 = Some (0, 100)
   \<and> 0 < lateralSpread spreadConfig \<and> (1::real) \<noteq> 0
   \<and> getPositionAlongEdge spreadConfig verticalEdge 1 1 = Some (-10, 100)
   \<and> getPositionAlongEdge spreadConfig horizontalEdge 0 1 = Some (0, 0)
   \<and> getPositionAlongEdge spreadConfig horizontalEdge 1 1 = Some (100, 0)"
proof -
  have h: "lateralSpread defaultConfig \<le> 0 \<or> (1::real) = 0"
    by (simp add: defaultConfig_def)
  have g: "0 < lateralSpread spreadConfig \<and> (1::real) \<noteq> 0"
    by (simp add: spreadConfig_def)
  from h position_on_curve [of defaultConfig 1 verticalEdge "1 / 2"]
  have "getPositionAlongEdge defaultConfig verticalEdge (1 / 2) 1 = Some (0, 50)
        \<and> getPositionAlongEdge defaultConfig verticalEdge 0 1 = Some (0, 0)
        \<and> getPositionAlongEdge defaultConfig verticalEdge 1 1 = Some (0, 100)"
    by (simp add: verticalEdge_def cubicBezier_def lerp_def)
  moreover
  from g position_on_curve [of spreadConfig 1 verticalEdge 0]
  have "getPositionAlongEdge spreadConfig verticalEdge 1 1 = Some (-10, 100)"
    by (simp add: verticalEdge_def spreadConfig_def)
  moreover
  from g position_on_curve [of spreadConfig 1 horizontalEdge 0]
  have "getPositionAlongEdge spreadConfig horizontalEdge 0 1 = Some (0, 0)
        \<and> getPositionAlongEdge spreadConfig horizontalEdge 1 1 = Some (100, 0)"
    by (simp add: horizontalEdge_def)
  ultimately show ?thesis using h g by simp
qed

text \<open>
  C3, as the claim states it, fails: with a lateral spread of 10 and a lateral offset of 1
  the position at \<open>t = 0\<close> on the vertical edge from \<open>(0, 0)\<close> to \<open>(0, 100)\<close> is
  \<open>(-10, 0)\<close>, not the source.
\<close>

theorem offset_moves_endpoint:
  "getPositionAlongEdge spreadConfig verticalEdge 0 1 = Some (-10, 0)"
  by (simp add: getPositionAlongEdge_def spreadConfig_def defaultConfig_def verticalEdge_def
      bezier_def bezierDerivative_def Let_def)

section \<open>The particle pool\<close>

subsection \<open>The update pass as a filter and a map\<close>

lemma forEachParticle_removed:
  "length (snd (forEachParticle cfg paths dt i ps)) = length (filter completed ps)"
  by (induction ps arbitrary: i) (auto simp: Let_def case_prod_unfold)

lemma splice1_at_length: "splice1 (length pre) (pre @ p # rest) = pre @ rest"
  by (simp add: splice1_def)

text \<open>
  Removing the collected indices from the back leaves the advanced particles: shown for
  the loop started at any index, with the particles before that index as a prefix.
\<close>

lemma forEachParticle_splice:
  "fold splice1 (rev (snd (forEachParticle cfg paths dt (length pre) ps)))
        (pre @ fst (forEachParticle cfg paths dt (length pre) ps))
     = pre @ map (advanceParticle cfg paths dt) (filter (\<lambda>p. \<not> completed p) ps)"
proof (induction ps arbitrary: pre)
  case Nil
  then show ?case by simp
next
  case (Cons p ps)
  obtain vs rm where r: "forEachParticle cfg paths dt (Suc (length pre)) ps = (vs, rm)"
    by (cases "forEachParticle cfg paths dt (Suc (length pre)) ps")
  show ?case
  proof (cases "completed p")
    case True
    from Cons [of "pre @ [p]"] r
    have "fold splice1 (rev rm) (pre @ p # vs)
            = pre @ p # map (advanceParticle cfg paths dt) (filter (\<lambda>p. \<not> completed p) ps)"
      by simp
    with True r show ?thesis by (simp add: splice1_at_length)
  next
    case False
    from Cons [of "pre @ [advanceParticle cfg paths dt p]"] r
    have "fold splice1 (rev rm) (pre @ advanceParticle cfg paths dt p # vs)
            = pre @ advanceParticle cfg paths dt p
                # map (advanceParticle cfg paths dt) (filter (\<lambda>p. \<not> completed p) ps)"
      by simp
    with False r show ?thesis by simp
  qed
qed

lemma updateParticles_particles:
  "particles (updateParticles dt now ps)
     = map (advanceParticle (config ps) (edgePaths ps) dt)
         (filter (\<lambda>p. \<not> completed p) (particles ps))"
  using forEachParticle_splice [of "config ps" "edgePaths ps" dt "[]" "particles ps"]
  by (simp add: updateParticles_def case_prod_unfold Let_def)

lemma updateParticles_completedCount:
  "completedCount (updateParticles dt now ps)
     = completedCount ps + length (filter completed (particles ps))"
  using forEachParticle_removed [of "config ps" "edgePaths ps" dt 0 "particles ps"]
  by (simp add: updateParticles_def case_prod_unfold Let_def)

lemma updateParticles_config: "config (updateParticles dt now ps) = config ps"
  by (simp add: updateParticles_def case_prod_unfold Let_def)

lemma cleanupCompletions_particles:
  "particles (cleanupCompletions now ps) = particles ps"
  by (simp add: cleanupCompletions_def)

lemma cleanupCompletions_config: "config (cleanupCompletions now ps) = config ps"
  by (simp add: cleanupCompletions_def)

subsection \<open>What a spawn can do\<close>

lemma pushParticleFrom_cases:
  assumes "pushParticleFrom rnd nid ps = Some ps'"
  shows "ps' = ps
         \<or> (\<exists>k path. path \<noteq> []
              \<and> ps' = ps\<lparr>particles := particles ps @ [newParticle (config ps) rnd k path]\<rparr>)"
  using assms
  by (auto simp: pushParticleFrom_def split: option.splits prod.splits if_splits)

lemma pushParticleFrom_config:
  "pushParticleFrom rnd nid ps = Some ps' \<Longrightarrow> config ps' = config ps"
  by (auto dest: pushParticleFrom_cases)

lemma pushParticleFrom_length:
  "pushParticleFrom rnd nid ps = Some ps' \<Longrightarrow>
     length (particles ps') \<le> Suc (length (particles ps))"
  by (auto dest: pushParticleFrom_cases)


lemma spawnParticle_cases:
  assumes "spawnParticle rnd time ps = Some ps'"
  shows "ps' = ps \<or> (\<not> atCapacity ps \<and>
           (\<exists>startId. pushParticleFrom rnd startId (ps\<lparr>lastSpawnTime := time\<rparr>) = Some ps'))"
  using assms by (auto simp: spawnParticle_def split: option.splits if_splits)

lemma spawnOne_cases:
  assumes "spawnOne rnd ps = Some ps'"
  shows "ps' = ps \<or> (\<not> atCapacity ps \<and> (\<exists>startId. pushParticleFrom rnd startId ps = Some ps'))"
  using assms by (auto simp: spawnOne_def split: option.splits if_splits)

lemma spawnFrom_cases:
  assumes "spawnFrom rnd nid ps = Some ps'"
  shows "ps' = ps \<or> (\<not> atCapacity ps \<and> pushParticleFrom rnd nid ps = Some ps')"
  using assms by (auto simp: spawnFrom_def split: if_splits)

lemma at_capacity_skips:
  assumes "atCapacity ps"
  shows "spawnOne rnd ps = Some ps" "spawnFrom rnd nid ps = Some ps"
    "spawnParticle rnd time ps = Some ps"
  using assms
  by (simp_all add: spawnOne_def spawnFrom_def spawnParticle_def split: option.splits)

subsection \<open>The index of a particle\<close>

lemma advanceParticle_edgePath: "edgePath (advanceParticle cfg paths dt p) = edgePath p"
  by (simp add: advanceParticle_def recordTrail_def Let_def split: option.splits)

lemma advanceParticle_edgeIndex:
  "edgeIndex (advanceParticle cfg paths dt p) = edgeIndex p
   \<or> edgeIndex (advanceParticle cfg paths dt p) = edgeIndex p + 1"
  by (simp add: advanceParticle_def recordTrail_def Let_def split: option.splits)

lemma advanceParticle_inRange:
  assumes "indexInRange p" "\<not> completed p"
  shows "indexInRange (advanceParticle cfg paths dt p)"
  using assms advanceParticle_edgeIndex [of cfg paths dt p]
  by (auto simp: indexInRange_def completed_def advanceParticle_edgePath)

lemma forEachParticle_inRange:
  assumes "\<forall>p \<in> set ps. indexInRange p"
  shows "\<forall>p \<in> set (fst (forEachParticle cfg paths dt i ps)). indexInRange p"
  using assms
  by (induction ps arbitrary: i) (auto simp: Let_def advanceParticle_inRange case_prod_unfold)

lemma updateParticles_inRange:
  assumes "\<forall>p \<in> set (particles ps). indexInRange p"
  shows "\<forall>p \<in> set (particles (updateParticles dt now ps)). indexInRange p"
  using assms by (auto simp: updateParticles_particles advanceParticle_inRange)

lemma newParticle_inRange: "indexInRange (newParticle cfg rnd k path)"
  by (simp add: newParticle_def indexInRange_def split: prod.splits)

lemma newParticle_completed: "completed (newParticle cfg rnd k path) \<longleftrightarrow> path = []"
  by (simp add: newParticle_def completed_def split: prod.splits)

lemma pushParticleFrom_inRange:
  assumes "pushParticleFrom rnd nid ps = Some ps'" "\<forall>p \<in> set (particles ps). indexInRange p"
  shows "\<forall>p \<in> set (particles ps'). indexInRange p"
  using pushParticleFrom_cases [OF assms(1)] assms(2) by (auto simp: newParticle_inRange)

lemma spawnParticle_inRange:
  assumes "spawnParticle rnd time ps = Some ps'" "\<forall>p \<in> set (particles ps). indexInRange p"
  shows "\<forall>p \<in> set (particles ps'). indexInRange p"
proof -
  from spawnParticle_cases [OF assms(1)] show ?thesis
  proof
    assume "ps' = ps" with assms(2) show ?thesis by simp
  next
    assume "\<not> atCapacity ps \<and>
      (\<exists>startId. pushParticleFrom rnd startId (ps\<lparr>lastSpawnTime := time\<rparr>) = Some ps')"
    then obtain startId where
      p: "pushParticleFrom rnd startId (ps\<lparr>lastSpawnTime := time\<rparr>) = Some ps'" by blast
    from pushParticleFrom_inRange [OF p] assms(2) show ?thesis by simp
  qed
qed

lemma spawnOne_inRange:
  assumes "spawnOne rnd ps = Some ps'" "\<forall>p \<in> set (particles ps). indexInRange p"
  shows "\<forall>p \<in> set (particles ps'). indexInRange p"
  using spawnOne_cases [OF assms(1)] assms(2) pushParticleFrom_inRange by blast

lemma spawnFrom_inRange:
  assumes "spawnFrom rnd nid ps = Some ps'" "\<forall>p \<in> set (particles ps). indexInRange p"
  shows "\<forall>p \<in> set (particles ps'). indexInRange p"
  using spawnFrom_cases [OF assms(1)] assms(2) pushParticleFrom_inRange by blast

lemma update_inRange:
  assumes "update rnd dt time now ps = Some ps'" "\<forall>p \<in> set (particles ps). indexInRange p"
  shows "\<forall>p \<in> set (particles ps'). indexInRange p"
proof -
  from assms(1) obtain ps1 where s: "spawnParticle rnd time ps = Some ps1"
    and e: "ps' = cleanupCompletions now (updateParticles dt now ps1)"
    by (auto simp: update_def split: option.splits)
  from spawnParticle_inRange [OF s assms(2)] have "\<forall>p \<in> set (particles ps1). indexInRange p" .
  from updateParticles_inRange [OF this] e show ?thesis
    by (simp add: cleanupCompletions_particles)
qed

lemma perform_inRange:
  assumes "perform c ps = Some ps'" "\<forall>p \<in> set (particles ps). indexInRange p"
  shows "\<forall>p \<in> set (particles ps'). indexInRange p"
proof (cases c)
  case (Update rnd dt time now)
  with assms update_inRange [of rnd dt time now ps ps'] show ?thesis by simp
next
  case (SpawnOne rnd)
  with assms spawnOne_inRange [of rnd ps ps'] show ?thesis by simp
next
  case (SpawnFrom rnd nid)
  with assms spawnFrom_inRange [of rnd nid ps ps'] show ?thesis by simp
qed

lemma performAll_inRange:
  assumes "performAll cs ps = Some ps'" "\<forall>p \<in> set (particles ps). indexInRange p"
  shows "\<forall>p \<in> set (particles ps'). indexInRange p"
  using assms
proof (induction cs arbitrary: ps)
  case Nil
  then show ?case by simp
next
  case (Cons c cs)
  from Cons.prems(1) obtain ps1 where p: "perform c ps = Some ps1"
    and r: "performAll cs ps1 = Some ps'"
    by (auto split: option.splits)
  from Cons.IH [OF r perform_inRange [OF p Cons.prems(2)]] show ?case .
qed

text \<open>
  One call of \<open>update\<close>: the particles completed before the call are gone and counted, the
  others, and the one particle a spawn may have added, are advanced.
\<close>

lemma update_result:
  assumes "update rnd dt time now ps = Some ps'"
  shows "\<exists>extra. length extra \<le> 1 \<and> list_all (\<lambda>p. \<not> completed p) extra
           \<and> particles ps' = map (advanceParticle (config ps) (edgePaths ps) dt)
                               (filter (\<lambda>p. \<not> completed p) (particles ps) @ extra)
           \<and> completedCount ps' = completedCount ps + length (filter completed (particles ps))"
proof -
  from assms obtain ps1 where s: "spawnParticle rnd time ps = Some ps1"
    and e: "ps' = cleanupCompletions now (updateParticles dt now ps1)"
    by (auto simp: update_def split: option.splits)
  have "\<exists>extra. length extra \<le> 1 \<and> list_all (\<lambda>p. \<not> completed p) extra
          \<and> particles ps1 = particles ps @ extra \<and> config ps1 = config ps
          \<and> edgePaths ps1 = edgePaths ps \<and> completedCount ps1 = completedCount ps"
  proof -
    from spawnParticle_cases [OF s] show ?thesis
    proof
      assume "ps1 = ps"
      then show ?thesis by (intro exI [of _ "[]"]) simp
    next
      assume "\<not> atCapacity ps \<and>
        (\<exists>startId. pushParticleFrom rnd startId (ps\<lparr>lastSpawnTime := time\<rparr>) = Some ps1)"
      then obtain startId where
        p: "pushParticleFrom rnd startId (ps\<lparr>lastSpawnTime := time\<rparr>) = Some ps1" by blast
      from pushParticleFrom_cases [OF p] show ?thesis
      proof
        assume "ps1 = ps\<lparr>lastSpawnTime := time\<rparr>"
        then show ?thesis by (intro exI [of _ "[]"]) simp
      next
        assume "\<exists>k path. path \<noteq> [] \<and> ps1 = ps\<lparr>lastSpawnTime := time\<rparr>
          \<lparr>particles := particles (ps\<lparr>lastSpawnTime := time\<rparr>)
             @ [newParticle (config (ps\<lparr>lastSpawnTime := time\<rparr>)) rnd k path]\<rparr>"
        then obtain k path where n: "path \<noteq> []"
          and q: "ps1 = ps\<lparr>lastSpawnTime := time\<rparr>
            \<lparr>particles := particles (ps\<lparr>lastSpawnTime := time\<rparr>)
               @ [newParticle (config (ps\<lparr>lastSpawnTime := time\<rparr>)) rnd k path]\<rparr>" by blast
        from n q show ?thesis
          by (intro exI [of _ "[newParticle (config ps) rnd k path]"])
            (simp add: newParticle_completed)
      qed
    qed
  qed
  then obtain extra where x: "length extra \<le> 1" "list_all (\<lambda>p. \<not> completed p) extra"
    "particles ps1 = particles ps @ extra" "config ps1 = config ps"
    "edgePaths ps1 = edgePaths ps" "completedCount ps1 = completedCount ps" by blast
  from x(2) have f: "filter (\<lambda>p. \<not> completed p) extra = extra" "filter completed extra = []"
    by (induction extra) auto
  from e x f have "particles ps' = map (advanceParticle (config ps) (edgePaths ps) dt)
                               (filter (\<lambda>p. \<not> completed p) (particles ps) @ extra)
           \<and> completedCount ps' = completedCount ps + length (filter completed (particles ps))"
    by (simp add: cleanupCompletions_particles cleanupCompletions_def
        updateParticles_particles updateParticles_completedCount)
  with x(1,2) show ?thesis by blast
qed

text \<open>
  C5. Where every particle's index lies between zero and the length of its path, it does
  so at every point of the pass over the particles and after it, and after any run of
  calls. The pass removes exactly the particles whose index had reached the length of
  their path, counts each of them as completed, and advances only the others; so does a
  whole \<open>update\<close>, whose spawn adds at most one particle, one that is not completed.
\<close>

theorem particle_index_invariant:
  assumes "\<forall>p \<in> set (particles ps). indexInRange p"
  shows "(\<forall>p \<in> set (fst (forEachParticle (config ps) (edgePaths ps) dt 0 (particles ps))).
            indexInRange p)
       \<and> (\<forall>p \<in> set (particles (updateParticles dt now ps)). indexInRange p)
       \<and> particles (updateParticles dt now ps)
           = map (advanceParticle (config ps) (edgePaths ps) dt)
               (filter (\<lambda>p. \<not> completed p) (particles ps))
       \<and> completedCount (updateParticles dt now ps)
           = completedCount ps + length (filter completed (particles ps))
       \<and> (\<forall>ps'. update rnd dt time now ps = Some ps' \<longrightarrow>
            (\<exists>extra. length extra \<le> 1 \<and> list_all (\<lambda>p. \<not> completed p) extra
               \<and> particles ps' = map (advanceParticle (config ps) (edgePaths ps) dt)
                                   (filter (\<lambda>p. \<not> completed p) (particles ps) @ extra)
               \<and> completedCount ps'
                   = completedCount ps + length (filter completed (particles ps))))
       \<and> (\<forall>ps'. performAll calls ps = Some ps' \<longrightarrow> (\<forall>p \<in> set (particles ps'). indexInRange p))"
  using forEachParticle_inRange [OF assms] updateParticles_inRange [OF assms]
    updateParticles_particles updateParticles_completedCount update_result
    performAll_inRange [OF _ assms]
  by (intro conjI allI impI) blast+

theorem particle_index_invariant_witness:
  "particles arrivedSystem = [arrivedParticle] \<and> indexInRange arrivedParticle
   \<and> completed arrivedParticle
   \<and> particles (updateParticles 16 0 arrivedSystem) = []
   \<and> completedCount (updateParticles 16 0 arrivedSystem) = 1"
proof -
  have h: "\<forall>p \<in> set (particles arrivedSystem). indexInRange p"
    by (simp add: arrivedSystem_def arrivedParticle_def indexInRange_def)
  have c: "completed arrivedParticle" by (simp add: completed_def arrivedParticle_def)
  have p: "particles arrivedSystem = [arrivedParticle]" by (simp add: arrivedSystem_def)
  have n: "completedCount arrivedSystem = 0"
    by (simp add: arrivedSystem_def scenarioSystem_def newParticleSystem_def)
  from particle_index_invariant [OF h, of 16 0] h c p n show ?thesis by simp
qed


subsection \<open>Capacity\<close>

text \<open>
  A spawn pushes only below capacity, and below capacity there is room for one more
  particle under \<open>maxParticles\<close> rounded up; under \<open>maxParticles\<close> itself there is room
  only when it is a whole number.
\<close>

lemma room_below_capacity:
  assumes "\<not> atCapacity ps"
  shows "int (Suc (length (particles ps))) \<le> \<lceil>maxParticles (config ps)\<rceil>"
proof -
  from assms have "of_int (int (length (particles ps))) < maxParticles (config ps)"
    by (simp add: atCapacity_def)
  then have "int (length (particles ps)) < \<lceil>maxParticles (config ps)\<rceil>"
    by (simp only: less_ceiling_iff)
  then show ?thesis by simp
qed

lemma withinCapacity_ceiling:
  assumes "withinCapacity ps"
  shows "withinCeiling ps"
proof -
  from assms have "of_int (int (liveCount ps)) - 1 < maxParticles (config ps)"
    by (simp add: withinCapacity_def)
  then show ?thesis
    by (simp only: withinCeiling_def le_ceiling_iff)
qed

lemma withinCeiling_whole:
  assumes "withinCeiling ps" "maxParticles (config ps) \<in> \<int>"
  shows "withinCapacity ps"
proof -
  from assms(2) obtain z where z: "maxParticles (config ps) = of_int z"
    by (rule Ints_cases)
  with assms(1) have "int (liveCount ps) \<le> z"
    by (simp add: withinCeiling_def)
  then have "real_of_int (int (liveCount ps)) \<le> real_of_int z"
    by (simp only: of_int_le_iff)
  with z show ?thesis by (simp add: withinCapacity_def)
qed

lemma push_within_ceiling:
  assumes p: "pushParticleFrom rnd nid ps0 = Some ps'"
      and n: "int (Suc (length (particles ps0))) \<le> \<lceil>maxParticles (config ps0)\<rceil>"
  shows "withinCeiling ps' \<and> config ps' = config ps0"
proof -
  from pushParticleFrom_length [OF p]
  have "int (length (particles ps')) \<le> int (Suc (length (particles ps0)))" by simp
  also note n
  finally show ?thesis
    using pushParticleFrom_config [OF p] by (simp add: withinCeiling_def liveCount_def)
qed

lemma spawnOne_capacity:
  assumes "spawnOne rnd ps = Some ps'" "withinCeiling ps"
  shows "withinCeiling ps' \<and> config ps' = config ps"
proof -
  from spawnOne_cases [OF assms(1)] show ?thesis
  proof
    assume "ps' = ps" with assms(2) show ?thesis by simp
  next
    assume "\<not> atCapacity ps \<and> (\<exists>startId. pushParticleFrom rnd startId ps = Some ps')"
    then obtain startId where n: "\<not> atCapacity ps"
      and p: "pushParticleFrom rnd startId ps = Some ps'" by blast
    from push_within_ceiling [OF p room_below_capacity [OF n]] show ?thesis .
  qed
qed

lemma spawnFrom_capacity:
  assumes "spawnFrom rnd nid ps = Some ps'" "withinCeiling ps"
  shows "withinCeiling ps' \<and> config ps' = config ps"
proof -
  from spawnFrom_cases [OF assms(1)] show ?thesis
  proof
    assume "ps' = ps" with assms(2) show ?thesis by simp
  next
    assume a: "\<not> atCapacity ps \<and> pushParticleFrom rnd nid ps = Some ps'"
    then have n: "\<not> atCapacity ps" and p: "pushParticleFrom rnd nid ps = Some ps'"
      by simp_all
    from push_within_ceiling [OF p room_below_capacity [OF n]] show ?thesis .
  qed
qed

lemma spawnParticle_capacity:
  assumes "spawnParticle rnd time ps = Some ps'" "withinCeiling ps"
  shows "withinCeiling ps' \<and> config ps' = config ps"
proof -
  from spawnParticle_cases [OF assms(1)] show ?thesis
  proof
    assume "ps' = ps" with assms(2) show ?thesis by simp
  next
    assume "\<not> atCapacity ps \<and>
      (\<exists>startId. pushParticleFrom rnd startId (ps\<lparr>lastSpawnTime := time\<rparr>) = Some ps')"
    then obtain startId where n: "\<not> atCapacity ps"
      and p: "pushParticleFrom rnd startId (ps\<lparr>lastSpawnTime := time\<rparr>) = Some ps'" by blast
    from room_below_capacity [OF n]
    have "int (Suc (length (particles (ps\<lparr>lastSpawnTime := time\<rparr>))))
            \<le> \<lceil>maxParticles (config (ps\<lparr>lastSpawnTime := time\<rparr>))\<rceil>"
      by simp
    from push_within_ceiling [OF p this] show ?thesis by simp
  qed
qed

lemma updateParticles_capacity:
  assumes "withinCeiling ps"
  shows "withinCeiling (updateParticles dt now ps)"
proof -
  have "int (length (filter (\<lambda>p. \<not> completed p) (particles ps))) \<le> int (length (particles ps))"
    by simp
  also from assms have "\<dots> \<le> \<lceil>maxParticles (config ps)\<rceil>"
    by (simp add: withinCeiling_def liveCount_def)
  finally show ?thesis
    by (simp add: withinCeiling_def liveCount_def updateParticles_particles
        updateParticles_config)
qed

lemma update_capacity:
  assumes "update rnd dt time now ps = Some ps'" "withinCeiling ps"
  shows "withinCeiling ps' \<and> config ps' = config ps"
proof -
  from assms(1) obtain ps1 where s: "spawnParticle rnd time ps = Some ps1"
    and e: "ps' = cleanupCompletions now (updateParticles dt now ps1)"
    by (auto simp: update_def split: option.splits)
  from spawnParticle_capacity [OF s assms(2)]
  have "withinCeiling ps1" "config ps1 = config ps" by auto
  with updateParticles_capacity [of ps1 dt now] e show ?thesis
    by (simp add: withinCeiling_def liveCount_def cleanupCompletions_particles
        cleanupCompletions_config updateParticles_config)
qed

lemma perform_capacity:
  assumes "perform c ps = Some ps'" "withinCeiling ps"
  shows "withinCeiling ps' \<and> config ps' = config ps"
proof (cases c)
  case (Update rnd dt time now)
  with assms update_capacity [of rnd dt time now ps ps'] show ?thesis by simp
next
  case (SpawnOne rnd)
  with assms spawnOne_capacity [of rnd ps ps'] show ?thesis by simp
next
  case (SpawnFrom rnd nid)
  with assms spawnFrom_capacity [of rnd nid ps ps'] show ?thesis by simp
qed

lemma performAll_capacity:
  assumes "performAll cs ps = Some ps'" "withinCeiling ps"
  shows "withinCeiling ps' \<and> config ps' = config ps"
  using assms
proof (induction cs arbitrary: ps)
  case Nil
  then show ?case by simp
next
  case (Cons c cs)
  from Cons.prems(1) obtain ps1 where p: "perform c ps = Some ps1"
    and r: "performAll cs ps1 = Some ps'"
    by (auto split: option.splits)
  from perform_capacity [OF p Cons.prems(2)] Cons.IH [OF r] show ?case by simp
qed

lemma performAll_whole_capacity:
  assumes "performAll cs ps = Some ps'" "withinCapacity ps"
  shows "withinCeiling ps' \<and> config ps' = config ps
         \<and> (maxParticles (config ps) \<in> \<int> \<longrightarrow> withinCapacity ps')"
proof -
  from performAll_capacity [OF assms(1) withinCapacity_ceiling [OF assms(2)]]
  have c: "withinCeiling ps'" and e: "config ps' = config ps" by simp_all
  have "maxParticles (config ps) \<in> \<int> \<longrightarrow> withinCapacity ps'"
  proof
    assume "maxParticles (config ps) \<in> \<int>"
    with e have "maxParticles (config ps') \<in> \<int>" by simp
    from withinCeiling_whole [OF c this] show "withinCapacity ps'" .
  qed
  with c e show ?thesis by simp
qed

subsection \<open>Every call returns on an acyclic graph\<close>

lemma pushParticleFrom_returns:
  assumes "acyclicBy rank (adjacency ps)"
  shows "\<exists>ps'. pushParticleFrom rnd nid ps = Some ps' \<and> adjacency ps' = adjacency ps"
proof -
  from generatePathLoop_acyclic [OF assms, of rnd 0 nid "[]"]
  obtain p where "generatePath (adjacency ps) rnd 0 nid = Some (p, length p)"
    by (auto simp: generatePath_def)
  then show ?thesis by (simp add: pushParticleFrom_def)
qed

lemma spawnOne_returns:
  assumes "acyclicBy rank (adjacency ps)"
  shows "\<exists>ps'. spawnOne rnd ps = Some ps' \<and> adjacency ps' = adjacency ps"
  using pushParticleFrom_returns [OF assms]
  by (simp add: spawnOne_def split: option.splits)

lemma spawnFrom_returns:
  assumes "acyclicBy rank (adjacency ps)"
  shows "\<exists>ps'. spawnFrom rnd nid ps = Some ps' \<and> adjacency ps' = adjacency ps"
  using pushParticleFrom_returns [OF assms]
  by (simp add: spawnFrom_def)

lemma spawnParticle_returns:
  assumes "acyclicBy rank (adjacency ps)"
  shows "\<exists>ps'. spawnParticle rnd time ps = Some ps' \<and> adjacency ps' = adjacency ps"
proof -
  from assms have "acyclicBy rank (adjacency (ps\<lparr>lastSpawnTime := time\<rparr>))" by simp
  from pushParticleFrom_returns [OF this] show ?thesis
    by (simp add: spawnParticle_def split: option.splits)
qed

lemma update_returns:
  assumes "acyclicBy rank (adjacency ps)"
  shows "\<exists>ps'. update rnd dt time now ps = Some ps' \<and> adjacency ps' = adjacency ps"
proof -
  from spawnParticle_returns [OF assms, of rnd time] obtain ps1 where
    "spawnParticle rnd time ps = Some ps1" "adjacency ps1 = adjacency ps" by blast
  then show ?thesis
    by (simp add: update_def cleanupCompletions_def updateParticles_def case_prod_unfold Let_def)
qed

lemma perform_returns:
  assumes "acyclicBy rank (adjacency ps)"
  shows "\<exists>ps'. perform c ps = Some ps' \<and> adjacency ps' = adjacency ps"
proof (cases c)
  case (Update rnd dt time now)
  with update_returns [OF assms, of rnd dt time now] show ?thesis by simp
next
  case (SpawnOne rnd)
  with spawnOne_returns [OF assms, of rnd] show ?thesis by simp
next
  case (SpawnFrom rnd nid)
  with spawnFrom_returns [OF assms, of rnd nid] show ?thesis by simp
qed

lemma performAll_returns:
  assumes "acyclicBy rank (adjacency ps)"
  shows "\<exists>ps'. performAll cs ps = Some ps'"
  using assms
proof (induction cs arbitrary: ps)
  case Nil
  then show ?case by simp
next
  case (Cons c cs)
  from perform_returns [OF Cons.prems, of c] obtain ps1 where
    p: "perform c ps = Some ps1" and a: "adjacency ps1 = adjacency ps" by blast
  from Cons.prems a have "acyclicBy rank (adjacency ps1)" by simp
  from Cons.IH [OF this] p show ?case by simp
qed

text \<open>
  C6, as the code has it. Where the live count is within \<open>maxParticles\<close>, it is within
  \<open>maxParticles\<close> rounded up to a whole number after any run of \<open>update\<close>, \<open>spawnOne\<close>
  and \<open>spawnFrom\<close> calls, none of which changes the configuration; so it is within
  \<open>maxParticles\<close> itself when that is a whole number. A spawn at capacity returns the
  system as it was, with nothing kept for later; and on an acyclic graph every such run
  does return.
\<close>

theorem capacity_never_exceeded:
  assumes "withinCapacity ps"
  shows "(\<forall>ps'. performAll calls ps = Some ps' \<longrightarrow>
            withinCeiling ps' \<and> config ps' = config ps
            \<and> (maxParticles (config ps) \<in> \<int> \<longrightarrow> withinCapacity ps'))
       \<and> (atCapacity ps \<longrightarrow>
            spawnOne rnd ps = Some ps \<and> spawnFrom rnd nid ps = Some ps
            \<and> spawnParticle rnd time ps = Some ps)
       \<and> (acyclicBy rank (adjacency ps) \<longrightarrow> (\<exists>ps'. performAll calls ps = Some ps'))"
  using performAll_whole_capacity [OF _ assms] at_capacity_skips performAll_returns
  by (intro conjI allI impI) blast+

theorem capacity_never_exceeded_witness:
  "withinCapacity scenarioSystem \<and> maxParticles (config scenarioSystem) \<in> \<int>
   \<and> (case performAll scenarioCalls scenarioSystem of
        None \<Rightarrow> False
      | Some ps' \<Rightarrow> withinCeiling ps' \<and> withinCapacity ps'
                     \<and> maxParticles (config ps') = 1)"
proof -
  have h: "withinCapacity scenarioSystem"
    by (simp add: withinCapacity_def liveCount_def scenarioSystem_def newParticleSystem_def)
  have a: "acyclicBy twoNodeRank (adjacency scenarioSystem)"
    by (simp add: scenarioSystem_def two_node_acyclic)
  have m: "maxParticles (config scenarioSystem) = 1"
    by (simp add: scenarioSystem_def newParticleSystem_def)
  have w: "maxParticles (config scenarioSystem) \<in> \<int>"
    by (simp add: m)
  note t = capacity_never_exceeded [OF h, of scenarioCalls _ _ _ twoNodeRank]
  from t a obtain ps' where r: "performAll scenarioCalls scenarioSystem = Some ps'" by blast
  with t w have "withinCeiling ps' \<and> withinCapacity ps' \<and> config ps' = config scenarioSystem"
    by blast
  with r m h w show ?thesis by simp
qed

text \<open>
  C6, as the claim states it, fails where \<open>maxParticles\<close> is not a whole number: with
  \<open>maxParticles\<close> at one and a half and no particle alive, the live count is within
  capacity, and two calls of \<open>spawnOne\<close> leave two particles alive, which is not.
\<close>

theorem fractional_capacity_exceeded:
  "withinCapacity fractionalSystem
   \<and> maxParticles (config fractionalSystem) = 3 / 2
   \<and> map_option liveCount (performAll twoSpawns fractionalSystem) = Some 2
   \<and> map_option withinCapacity (performAll twoSpawns fractionalSystem) = Some False"
  by (simp add: fractionalSystem_def scenarioSystem_def newParticleSystem_def twoSpawns_def
      spawnOne_def atCapacity_def pushParticleFrom_def two_node_path liveCount_def
      withinCapacity_def)

subsection \<open>Spawns that do nothing\<close>









section \<open>The case engine\<close>

subsection \<open>One step of a case\<close>

lemma updateCase_None_iff:
  "updateCase eng c now = None \<longleftrightarrow>
     state c = at_outbox \<and> getOutboxRetention eng * 1000 \<le> now - stateStartedAt c"
  by (cases "state c") (auto simp: updateCase_def Let_def split: option.splits)

lemma updateCase_frozen:
  assumes "state c = at_inbox \<or> state c = transitioning"
      and "triggerFired eng c now"
      and "getNextNodeId eng (currentNodeId c) = None"
  shows "updateCase eng c now = Some c"
  using assms by (auto simp: updateCase_def triggerFired_def truthy_def Let_def)

lemma updateCase_frame:
  assumes "updateCase eng c now = Some c'"
  shows "c' = c\<lparr>state := state c', currentNodeId := currentNodeId c',
                currentStageIndex := currentStageIndex c', Case.progress := Case.progress c',
                stateStartedAt := stateStartedAt c'\<rparr>"
  using assms
  by (cases "state c") (auto simp: updateCase_def Let_def split: option.splits if_splits)

lemma updateCase_identity:
  assumes "updateCase eng c now = Some c'"
  shows "caseId c' = caseId c \<and> spawnedAt c' = spawnedAt c \<and> holdDuration c' = holdDuration c"
proof -
  from updateCase_frame [OF assms] obtain s n i p t where
    "c' = c\<lparr>state := s, currentNodeId := n, currentStageIndex := i, Case.progress := p,
            stateStartedAt := t\<rparr>" by blast
  then show ?thesis by simp
qed

text \<open>
  What the steps do keep of the stage index: it is \<open>-1\<close> in the inbox and the outbox and
  not negative at a stage.
\<close>

lemma updateCase_stage_index:
  assumes "updateCase eng c now = Some c'"
      and "(state c = at_inbox \<or> state c = at_outbox \<longrightarrow> currentStageIndex c = -1)
           \<and> (state c = at_procedure_stage \<longrightarrow> 0 \<le> currentStageIndex c)"
  shows "(state c' = at_inbox \<or> state c' = at_outbox \<longrightarrow> currentStageIndex c' = -1)
         \<and> (state c' = at_procedure_stage \<longrightarrow> 0 \<le> currentStageIndex c')"
  using assms
  by (cases "state c") (auto simp: updateCase_def Let_def split: option.splits if_splits)

subsection \<open>The map of cases\<close>

lemma mapSet_append:
  "k \<notin> fst ` set pre \<Longrightarrow> mapSet k v (pre @ (k, c) # rest) = pre @ (k, v) # rest"
  by (induction pre) auto

lemma mapSet_keys_present: "k \<in> fst ` set m \<Longrightarrow> map fst (mapSet k v m) = map fst m"
  by (induction m) force+

lemma mapSet_keys_absent: "k \<notin> fst ` set m \<Longrightarrow> map fst (mapSet k v m) = map fst m @ [k]"
  by (induction m) force+

lemma mapSet_distinct: "distinct (map fst m) \<Longrightarrow> distinct (map fst (mapSet k v m))"
  by (cases "k \<in> fst ` set m") (simp_all add: mapSet_keys_present mapSet_keys_absent)

lemma mapSet_key_set: "fst ` set (mapSet k v m) = insert k (fst ` set m)"
proof (cases "k \<in> fst ` set m")
  case True
  have "set (map fst (mapSet k v m)) = set (map fst m)"
    by (simp only: mapSet_keys_present [OF True])
  with True show ?thesis by auto
next
  case False
  have "set (map fst (mapSet k v m)) = set (map fst m @ [k])"
    by (simp only: mapSet_keys_absent [OF False])
  then show ?thesis by simp
qed

lemma mapSet_entries: "(k', c) \<in> set (mapSet k v m) \<Longrightarrow> (k' = k \<and> c = v) \<or> (k', c) \<in> set m"
  by (induction m) (auto split: if_splits)

lemma fold_mapDelete: "fold mapDelete ks m = filter (\<lambda>entry. fst entry \<notin> set ks) m"
  by (induction ks arbitrary: m) (auto simp: mapDelete_def intro: filter_cong)

lemma updateEntry_fst: "fst (updateEntry eng now entry) = fst entry"
  by (simp add: updateEntry_def split: option.splits)

text \<open>
  The loop of \<open>tick\<close> replaces every entry in place and collects the keys of the expired
  ones: shown for the loop at any point, with the entries already visited as a prefix.
\<close>

lemma updateAll_eq:
  assumes "distinct (map fst (pre @ rest))"
  shows "updateAll eng now rest (pre @ rest, rm)
           = (pre @ map (updateEntry eng now) rest,
              rm @ map fst (filter (expired eng now) rest))"
  using assms
proof (induction rest arbitrary: pre rm)
  case Nil
  then show ?case by simp
next
  case (Cons entry rest)
  obtain k c where e: "entry = (k, c)" by (cases entry)
  from Cons.prems have d: "distinct (map fst ((pre @ [entry]) @ rest))" by simp
  show ?case
  proof (cases "updateCase eng c now")
    case None
    with Cons.IH [OF d, of "rm @ [k]"] e show ?thesis
      by (simp add: updateEntry_def expired_def)
  next
    case (Some u)
    from Cons.prems e have "k \<notin> fst ` set pre" by auto
    then have m: "mapSet k u (pre @ (k, c) # rest) = (pre @ [(k, u)]) @ rest"
      by (simp add: mapSet_append)
    from Cons.prems e have d': "distinct (map fst ((pre @ [(k, u)]) @ rest))" by simp
    from Cons.IH [OF d', of rm] Some e m show ?thesis
      by (simp add: updateEntry_def expired_def)
  qed
qed

lemma distinct_key_filter:
  assumes "distinct (map fst xs)" "e \<in> set xs"
  shows "fst e \<in> fst ` set (filter P xs) \<longleftrightarrow> P e"
proof
  assume "fst e \<in> fst ` set (filter P xs)"
  then obtain e' where e': "e' \<in> set xs" "P e'" "fst e' = fst e" by auto
  from e'(1,3) assms have "e' = e"
    using eq_key_imp_eq_value [of xs "fst e" "snd e'" "snd e"] by (cases e, cases e') auto
  with e' show "P e" by simp
next
  assume "P e" with assms(2) show "fst e \<in> fst ` set (filter P xs)" by auto
qed

lemma tick_cases:
  assumes "distinct (map fst (cases (spawnIfDue now spawnNow r eng)))"
  shows "cases (fst (tick now spawnNow r frame eng))
           = map (updateEntry (spawnIfDue now spawnNow r eng) now)
               (filter (\<lambda>entry. \<not> expired (spawnIfDue now spawnNow r eng) now entry)
                  (cases (spawnIfDue now spawnNow r eng)))"
proof -
  define eng1 where "eng1 = spawnIfDue now spawnNow r eng"
  define xs where "xs = cases eng1"
  from assms have d: "distinct (map fst ([] @ xs))" by (simp add: eng1_def xs_def)
  have u: "updateAll eng1 now xs (xs, [])
             = (map (updateEntry eng1 now) xs, map fst (filter (expired eng1 now) xs))"
    using updateAll_eq [OF d, of eng1 now "[]"] by simp
  have "filter (\<lambda>entry. fst entry \<notin> fst ` set (filter (expired eng1 now) xs)) xs
          = filter (\<lambda>entry. \<not> expired eng1 now entry) xs"
  proof (rule filter_cong [OF refl])
    fix e assume "e \<in> set xs"
    with d show "(fst e \<notin> fst ` set (filter (expired eng1 now) xs)) = (\<not> expired eng1 now e)"
      using distinct_key_filter [of xs e "expired eng1 now"] by simp
  qed
  then have "filter (\<lambda>entry. fst entry \<notin> set (map fst (filter (expired eng1 now) xs)))
                 (map (updateEntry eng1 now) xs)
          = map (updateEntry eng1 now) (filter (\<lambda>entry. \<not> expired eng1 now entry) xs)"
    by (simp add: filter_map o_def updateEntry_fst)
  with u show ?thesis
    by (simp add: tick_def Let_def fold_mapDelete eng1_def [symmetric] xs_def [symmetric])
qed

subsection \<open>The spawn by rate\<close>

lemma spawnCase_distinct:
  "distinct (map fst (cases eng)) \<Longrightarrow> distinct (map fst (cases (spawnCase t r eng)))"
  by (simp add: spawnCase_def Let_def mapSet_distinct)

lemma spawnIfDue_distinct:
  "distinct (map fst (cases eng)) \<Longrightarrow> distinct (map fst (cases (spawnIfDue now spawnNow r eng)))"
  by (simp add: spawnIfDue_def Let_def spawnCase_distinct)

lemma spawnIfDue_nodes: "nodes (spawnIfDue now spawnNow r eng) = nodes eng"
  by (simp add: spawnIfDue_def spawnCase_def Let_def)

lemma spawnIfDue_retention:
  "getOutboxRetention (spawnIfDue now spawnNow r eng) = getOutboxRetention eng"
  by (simp add: getOutboxRetention_def findNode_def spawnIfDue_nodes)

lemma spawnIfDue_keeps_keys:
  "k \<in> fst ` set (cases eng) \<Longrightarrow> k \<in> fst ` set (cases (spawnIfDue now spawnNow r eng))"
  by (simp add: spawnIfDue_def spawnCase_def Let_def mapSet_key_set)

lemma spawnIfDue_entries:
  assumes "(k, c) \<in> set (cases (spawnIfDue now spawnNow r eng))"
  shows "state c = at_inbox \<or> (k, c) \<in> set (cases eng)"
  using assms
  by (auto simp: spawnIfDue_def spawnCase_def Let_def split: if_splits dest!: mapSet_entries)

subsection \<open>What a tick removes and what it keeps\<close>

lemma tick_removes_only_expired:
  assumes d: "distinct (map fst (cases eng))"
      and m: "(k, c) \<in> set (cases eng)"
      and g: "k \<notin> fst ` set (cases (fst (tick now spawnNow r frame eng)))"
  shows "state c = at_outbox \<and> getOutboxRetention eng * 1000 \<le> now - stateStartedAt c"
proof -
  define eng1 where "eng1 = spawnIfDue now spawnNow r eng"
  have d1: "distinct (map fst (cases eng1))"
    using d by (simp add: eng1_def spawnIfDue_distinct)
  from m have "k \<in> fst ` set (cases eng)" by force
  from spawnIfDue_keeps_keys [OF this, of now spawnNow r]
  obtain c1 where c1: "(k, c1) \<in> set (cases eng1)"
    by (auto simp: eng1_def)
  have "expired eng1 now (k, c1)"
  proof (rule ccontr)
    assume "\<not> expired eng1 now (k, c1)"
    with c1 have "updateEntry eng1 now (k, c1) \<in> set (cases (fst (tick now spawnNow r frame eng)))"
      using tick_cases [of now spawnNow r eng frame] d1 by (simp add: eng1_def)
    then have "fst (updateEntry eng1 now (k, c1))
                 \<in> fst ` set (cases (fst (tick now spawnNow r frame eng)))"
      by (rule imageI)
    then have "k \<in> fst ` set (cases (fst (tick now spawnNow r frame eng)))"
      by (simp add: updateEntry_fst)
    with g show False by simp
  qed
  then have x: "state c1 = at_outbox \<and> getOutboxRetention eng * 1000 \<le> now - stateStartedAt c1"
    by (simp add: expired_def updateCase_None_iff eng1_def spawnIfDue_retention)
  with c1 spawnIfDue_entries [of k c1 now spawnNow r eng] have "(k, c1) \<in> set (cases eng)"
    by (auto simp: eng1_def)
  from eq_key_imp_eq_value [OF d this m] have "c1 = c" .
  with x show ?thesis by simp
qed

lemma tick_survivors:
  assumes d: "distinct (map fst (cases eng))"
      and m: "(k, c') \<in> set (cases (fst (tick now spawnNow r frame eng)))"
  shows "\<exists>c. (k, c) \<in> set (cases (spawnIfDue now spawnNow r eng))
            \<and> updateCase (spawnIfDue now spawnNow r eng) c now = Some c'"
proof -
  define eng1 where "eng1 = spawnIfDue now spawnNow r eng"
  have d1: "distinct (map fst (cases eng1))"
    using d by (simp add: eng1_def spawnIfDue_distinct)
  from m tick_cases [of now spawnNow r eng frame] d1
  obtain e where e: "e \<in> set (cases eng1)" "\<not> expired eng1 now e"
    "(k, c') = updateEntry eng1 now e"
    by (auto simp: eng1_def)
  then obtain u where u: "updateCase eng1 (snd e) now = Some u" by (auto simp: expired_def)
  with e(3) have "k = fst e" "c' = u" by (simp_all add: updateEntry_def)
  with e(1) u have "(k, snd e) \<in> set (cases eng1) \<and> updateCase eng1 (snd e) now = Some c'"
    by simp
  then show ?thesis unfolding eng1_def by (rule exI)
qed

subsection \<open>The demonstration engine\<close>

lemma demo_next:
  "getNextNodeId demoEngine ''inbox'' = Some ''proc''"
  "getNextNodeId demoEngine ''proc'' = Some ''outbox''"
  by (simp_all add: getNextNodeId_def demoEngine_def setNodes_def setProceduralOrder_def
      newCaseEngine_def Let_def)

lemma demo_facts:
  "getNodeType demoEngine ''proc'' = Some ''procedure''"
  "length (getProcedureStages demoEngine ''proc'') = 2"
  "CaseEngine.config demoEngine = DEFAULT_CONFIG"
  "getInboxConfig demoEngine
     = \<lparr> inboxCasesPerMinute = 60, inboxHoldDurationMin = 500, inboxHoldDurationMax = 500 \<rparr>"
  "getOutboxRetention demoEngine = 3"
  by (simp_all add: getNodeType_def getProcedureStages_def getInboxConfig_def
      getOutboxRetention_def demoEngine_def setNodes_def setProceduralOrder_def
      newCaseEngine_def findNode_def demoNodes_def nodeField_def orDefault_def)

lemma spawnCase_first: "cases (spawnCase 0 0 demoEngine) = [(''case-1'', firstCase)]"
proof -
  have "cases demoEngine = []" "caseIdCounter demoEngine = 0"
    by (simp_all add: demoEngine_def setNodes_def setProceduralOrder_def newCaseEngine_def)
  then show ?thesis
    by (simp add: spawnCase_def Let_def demo_facts firstCase_def string_of_nat.simps)
qed


subsection \<open>The claims about the engine\<close>

text \<open>
  C1, at a case the engine reaches: the case spawned at time 0 with a hold of 500 is
  updated at the times 500, 600, 1100 and 1600 in the engine whose procedure has two
  stages. It enters the procedure at stage 0, moves to stage 1, and leaves for the
  transition to the outbox with its state \<open>transitioning\<close> and its stage index still 1:
  the branch that leaves the last stage does not set the index back to \<open>-1\<close>, as the
  branch that enters the outbox does.
\<close>

theorem stage_index_kept_on_leaving_procedure:
  "cases (spawnCase 0 0 demoEngine) = [(''case-1'', firstCase)]
   \<and> map_option stageView (updateCaseAt demoEngine [500, 600, 1100, 1600] firstCase)
       = Some (transitioning, 1)"
  by (simp add: spawnCase_first firstCase_def updateCase_def demo_next demo_facts
      DEFAULT_CONFIG_def Let_def orDefault_def truthy_def js_div_def stageView_def)

text \<open>
  C8. \<open>updateCase\<close> asks for the removal of a case exactly when the case is in the outbox
  and the retention has passed. A case in the inbox or in transition whose trigger has
  fired and for which \<open>getNextNodeId\<close> returns \<open>null\<close> is returned unchanged. And a
  case that a tick drops from the map of cases was in the outbox with its retention passed.
\<close>

theorem case_removed_only_at_outbox:
  "(updateCase eng c now = None \<longleftrightarrow>
      state c = at_outbox \<and> getOutboxRetention eng * 1000 \<le> now - stateStartedAt c)
   \<and> ((state c = at_inbox \<or> state c = transitioning) \<and> triggerFired eng c now
        \<and> getNextNodeId eng (currentNodeId c) = None \<longrightarrow>
      updateCase eng c now = Some c)
   \<and> (distinct (map fst (cases eng)) \<and> (k, c) \<in> set (cases eng)
        \<and> k \<notin> fst ` set (cases (fst (tick now spawnNow r frame eng))) \<longrightarrow>
      state c = at_outbox \<and> getOutboxRetention eng * 1000 \<le> now - stateStartedAt c)"
  using updateCase_None_iff [of eng c now] updateCase_frozen [of c eng now]
    tick_removes_only_expired [of eng k c now spawnNow r frame]
  by blast

lemma unordered_next: "getNextNodeId unorderedEngine n = None"
  by (simp add: getNextNodeId_def unorderedEngine_def setNodes_def newCaseEngine_def)

lemma arrived_tick: "cases (fst (tick 4000 4000 0 7 arrivedEngine)) = []"
proof -
  have i: "getInboxConfig arrivedEngine = getInboxConfig demoEngine"
    and o: "getOutboxRetention arrivedEngine = getOutboxRetention demoEngine"
    by (simp_all add: getInboxConfig_def getOutboxRetention_def findNode_def arrivedEngine_def)
  have l: "CaseEngine.lastSpawnTime arrivedEngine = 3500"
    by (simp add: arrivedEngine_def)
  have s: "spawnIfDue 4000 4000 0 arrivedEngine = arrivedEngine"
    by (simp add: spawnIfDue_def i l demo_facts Let_def)
  have u: "updateCase arrivedEngine arrivedCase 4000 = None"
    by (simp add: updateCase_None_iff o demo_facts arrivedCase_def)
  have c: "cases arrivedEngine = [(''case-1'', arrivedCase)]"
    by (simp add: arrivedEngine_def)
  show ?thesis
    by (simp add: tick_def s c u mapDelete_def)
qed

theorem case_removed_only_at_outbox_witness:
  "state firstCase = at_inbox \<and> triggerFired unorderedEngine firstCase 500
   \<and> getNextNodeId unorderedEngine (currentNodeId firstCase) = None
   \<and> updateCase unorderedEngine firstCase 500 = Some firstCase
   \<and> distinct (map fst (cases arrivedEngine))
   \<and> (''case-1'', arrivedCase) \<in> set (cases arrivedEngine)
   \<and> ''case-1'' \<notin> fst ` set (cases (fst (tick 4000 4000 0 7 arrivedEngine)))
   \<and> state arrivedCase = at_outbox
   \<and> getOutboxRetention arrivedEngine * 1000 \<le> 4000 - stateStartedAt arrivedCase"
proof -
  have a: "state firstCase = at_inbox" by (simp add: firstCase_def)
  have b: "triggerFired unorderedEngine firstCase 500"
    by (simp add: triggerFired_def firstCase_def orDefault_def)
  have c: "getNextNodeId unorderedEngine (currentNodeId firstCase) = None"
    by (rule unordered_next)
  have d: "distinct (map fst (cases arrivedEngine))" by (simp add: arrivedEngine_def)
  have e: "(''case-1'', arrivedCase) \<in> set (cases arrivedEngine)"
    by (simp add: arrivedEngine_def)
  have f: "''case-1'' \<notin> fst ` set (cases (fst (tick 4000 4000 0 7 arrivedEngine)))"
    by (simp add: arrived_tick)
  from case_removed_only_at_outbox [of unorderedEngine firstCase 500] a b c
  have "updateCase unorderedEngine firstCase 500 = Some firstCase" by blast
  moreover
  from case_removed_only_at_outbox
    [of arrivedEngine arrivedCase 4000 "''case-1''" 4000 0 7] d e f
  have "state arrivedCase = at_outbox
        \<and> getOutboxRetention arrivedEngine * 1000 \<le> 4000 - stateStartedAt arrivedCase"
    by blast
  ultimately show ?thesis using a b c d e f by simp
qed

text \<open>
  C9. \<open>reset\<close> leaves no case and passes the empty list to \<open>onUpdate\<close>, from any state;
  a second \<open>reset\<close> gives the same engine and the same list as the first; a \<open>reset\<close>
  after a tick that follows a \<open>reset\<close> again leaves no case. \<open>clear\<close> of the particle
  system leaves no particle and is idempotent as well.
\<close>

theorem reset_idempotent:
  "cases (fst (reset eng)) = [] \<and> getCases (fst (reset eng)) = [] \<and> snd (reset eng) = []
   \<and> reset (fst (reset eng)) = reset eng
   \<and> cases (fst (reset (fst (tick now spawnNow r frame (fst (reset eng)))))) = []
   \<and> particles (clear ps) = [] \<and> clear (clear ps) = clear ps"
  by (simp add: reset_def stop_def getCases_def clear_def)

text \<open>
  C10. The case that \<open>updateCase\<close> returns differs from the one it was given in at most
  the state, the current node, the stage index, the progress and the time the state was
  entered: the id, the time of the spawn and the hold duration are the same. Every case
  in the map after a tick is the result of \<open>updateCase\<close> on the case under the same key
  after the spawn by rate, and has that case's id, spawn time and hold duration.
\<close>

theorem tick_preserves_identity:
  "(updateCase eng c now = Some c' \<longrightarrow>
      caseId c' = caseId c \<and> spawnedAt c' = spawnedAt c \<and> holdDuration c' = holdDuration c
      \<and> c' = c\<lparr>state := state c', currentNodeId := currentNodeId c',
                 currentStageIndex := currentStageIndex c',
                 Case.progress := Case.progress c', stateStartedAt := stateStartedAt c'\<rparr>)
   \<and> (distinct (map fst (cases eng))
        \<and> (k, c') \<in> set (cases (fst (tick now spawnNow r frame eng))) \<longrightarrow>
      (\<exists>c0. (k, c0) \<in> set (cases (spawnIfDue now spawnNow r eng))
           \<and> updateCase (spawnIfDue now spawnNow r eng) c0 now = Some c'
           \<and> caseId c' = caseId c0 \<and> spawnedAt c' = spawnedAt c0
           \<and> holdDuration c' = holdDuration c0))"
proof (rule conjI)
  show "updateCase eng c now = Some c' \<longrightarrow>
      caseId c' = caseId c \<and> spawnedAt c' = spawnedAt c \<and> holdDuration c' = holdDuration c
      \<and> c' = c\<lparr>state := state c', currentNodeId := currentNodeId c',
                 currentStageIndex := currentStageIndex c',
                 Case.progress := Case.progress c', stateStartedAt := stateStartedAt c'\<rparr>"
  proof
    assume u: "updateCase eng c now = Some c'"
    from updateCase_identity [OF u] updateCase_frame [OF u]
    show "caseId c' = caseId c \<and> spawnedAt c' = spawnedAt c \<and> holdDuration c' = holdDuration c
      \<and> c' = c\<lparr>state := state c', currentNodeId := currentNodeId c',
                 currentStageIndex := currentStageIndex c',
                 Case.progress := Case.progress c', stateStartedAt := stateStartedAt c'\<rparr>"
      by (intro conjI) simp_all
  qed
next
  show "distinct (map fst (cases eng))
        \<and> (k, c') \<in> set (cases (fst (tick now spawnNow r frame eng))) \<longrightarrow>
      (\<exists>c0. (k, c0) \<in> set (cases (spawnIfDue now spawnNow r eng))
           \<and> updateCase (spawnIfDue now spawnNow r eng) c0 now = Some c'
           \<and> caseId c' = caseId c0 \<and> spawnedAt c' = spawnedAt c0
           \<and> holdDuration c' = holdDuration c0)"
  proof
    assume a: "distinct (map fst (cases eng))
      \<and> (k, c') \<in> set (cases (fst (tick now spawnNow r frame eng)))"
    then obtain c0 where c0: "(k, c0) \<in> set (cases (spawnIfDue now spawnNow r eng))"
      "updateCase (spawnIfDue now spawnNow r eng) c0 now = Some c'"
      using tick_survivors [of eng k c' now spawnNow r frame] by blast
    from c0 updateCase_identity [OF c0(2)]
    show "\<exists>c0. (k, c0) \<in> set (cases (spawnIfDue now spawnNow r eng))
           \<and> updateCase (spawnIfDue now spawnNow r eng) c0 now = Some c'
           \<and> caseId c' = caseId c0 \<and> spawnedAt c' = spawnedAt c0
           \<and> holdDuration c' = holdDuration c0"
      by blast
  qed
qed

lemma waiting_tick:
  "cases (fst (tick 500 500 0 7 waitingEngine))
     = [(''case-1'', firstCase\<lparr>state := transitioning, stateStartedAt := 500\<rparr>)]"
proof -
  have i: "getInboxConfig waitingEngine = getInboxConfig demoEngine"
    by (simp add: getInboxConfig_def findNode_def waitingEngine_def)
  have l: "CaseEngine.lastSpawnTime waitingEngine = 0"
    by (simp add: waitingEngine_def demoEngine_def setNodes_def setProceduralOrder_def
        newCaseEngine_def)
  have s: "spawnIfDue 500 500 0 waitingEngine = waitingEngine"
    by (simp add: spawnIfDue_def i l demo_facts Let_def)
  have n: "getNextNodeId waitingEngine ''inbox'' = getNextNodeId demoEngine ''inbox''"
    by (simp add: getNextNodeId_def waitingEngine_def Let_def)
  have u: "updateCase waitingEngine firstCase 500
             = Some (firstCase\<lparr>state := transitioning, stateStartedAt := 500\<rparr>)"
    by (simp add: updateCase_def n demo_next firstCase_def orDefault_def truthy_def)
  have c: "cases waitingEngine = [(''case-1'', firstCase)]"
    by (simp add: waitingEngine_def)
  show ?thesis
    by (simp add: tick_def s c u)
qed

theorem tick_preserves_identity_witness:
  "distinct (map fst (cases waitingEngine))
   \<and> cases (fst (tick 500 500 0 7 waitingEngine))
       = [(''case-1'', firstCase\<lparr>state := transitioning, stateStartedAt := 500\<rparr>)]
   \<and> (\<exists>c0. (''case-1'', c0) \<in> set (cases (spawnIfDue 500 500 0 waitingEngine))
          \<and> caseId (firstCase\<lparr>state := transitioning, stateStartedAt := 500\<rparr>) = caseId c0
          \<and> spawnedAt (firstCase\<lparr>state := transitioning, stateStartedAt := 500\<rparr>) = spawnedAt c0
          \<and> holdDuration (firstCase\<lparr>state := transitioning, stateStartedAt := 500\<rparr>)
              = holdDuration c0)"
proof -
  have d: "distinct (map fst (cases waitingEngine))" by (simp add: waitingEngine_def)
  have m: "(''case-1'', firstCase\<lparr>state := transitioning, stateStartedAt := 500\<rparr>)
             \<in> set (cases (fst (tick 500 500 0 7 waitingEngine)))"
    by (simp add: waiting_tick)
  from tick_preserves_identity
    [of waitingEngine firstCase 500 "firstCase\<lparr>state := transitioning, stateStartedAt := 500\<rparr>"
      "''case-1''" 500 0 7] d m
  have "\<exists>c0. (''case-1'', c0) \<in> set (cases (spawnIfDue 500 500 0 waitingEngine))
          \<and> caseId (firstCase\<lparr>state := transitioning, stateStartedAt := 500\<rparr>) = caseId c0
          \<and> spawnedAt (firstCase\<lparr>state := transitioning, stateStartedAt := 500\<rparr>) = spawnedAt c0
          \<and> holdDuration (firstCase\<lparr>state := transitioning, stateStartedAt := 500\<rparr>)
              = holdDuration c0"
    by blast
  with d waiting_tick show ?thesis by simp
qed


end
